theory Spec2Isabelle
  imports Main "HOL-Library.Sublist"
begin

section \<open>Errors and URLs\<close>

text \<open>
  The crawler is a Go program. Every Go function that returns \<open>(value, error)\<close> is
  modelled with the result type \<open>error + value\<close> (\<open>Inl\<close> is the error).
  \<open>httpError\<close> is the repository's own error type (page fetcher): a status code
  outside 200..299 together with the requested URL. Errors raised by the standard
  library or by third-party packages are opaque to the crawler, which only tests them
  against \<open>nil\<close>; they are kept as \<open>LibraryError\<close> with their message.
\<close>

datatype error = httpError int string | LibraryError string

text \<open>
  \<open>net/url.URL\<close>, restricted to the components the crawler reads or writes. The
  fields keep their Go names. Userinfo, the opaque part and the raw (escaped)
  variants of path and fragment are left out: the crawler never touches them.
\<close>

record URL =
  Scheme :: string
  Host :: string
  Path :: string
  RawQuery :: string
  Fragment :: string

definition IsAbs :: "URL \<Rightarrow> bool" where
  "IsAbs u = (Scheme u \<noteq> [])"

text \<open>
  \<open>URL.String()\<close> of the standard library, on the components above and for
  components that need no percent-escaping: \<open>scheme:\<close>, then \<open>//host\<close>, then the
  path (with a slash put in front of a relative path that follows a host), then
  \<open>?query\<close> and \<open>#fragment\<close>. This string is the dedup key and the argument the
  crawler hands to the robots check.
\<close>

definition url_String :: "URL \<Rightarrow> string" where
  "url_String u =
     (if Scheme u \<noteq> [] then Scheme u @ '':'' else []) @
     (if (Scheme u \<noteq> [] \<or> Host u \<noteq> []) \<and> (Host u \<noteq> [] \<or> Path u \<noteq> [])
      then ''//'' else []) @
     Host u @
     (if Path u \<noteq> [] \<and> take 1 (Path u) \<noteq> ''/'' \<and> Host u \<noteq> [] then ''/'' else []) @
     Path u @
     (if RawQuery u \<noteq> [] then ''?'' @ RawQuery u else []) @
     (if Fragment u \<noteq> [] then ''#'' @ Fragment u else [])"

section \<open>Path cleaning\<close>

text \<open>
  \<open>cleanPath\<close> of the repository is
  \<^verbatim>\<open>path.Clean(strings.ReplaceAll(p, "//", "/"))\<close>.
  \<open>strings.ReplaceAll\<close> replaces the non-overlapping occurrences of \<open>//\<close> from left
  to right, so \<open>///\<close> becomes \<open>//\<close>: one pass alone does not collapse every run.
\<close>

fun ReplaceAll_slashes :: "string \<Rightarrow> string" where
  "ReplaceAll_slashes (a # b # cs) =
     (if a = CHR ''/'' \<and> b = CHR ''/'' then CHR ''/'' # ReplaceAll_slashes cs
      else a # ReplaceAll_slashes (b # cs))"
| "ReplaceAll_slashes cs = cs"

text \<open>
  \<open>path.Clean\<close> of the standard library works on the elements between slashes: an
  empty element and \<open>.\<close> are dropped; \<open>..\<close> removes the element before it when
  there is one, is dropped at the root of a rooted path, and is kept at the front
  of a relative path; the remaining elements are joined by single slashes; the
  empty result is \<open>.\<close>. \<open>clean_elem\<close> is one round of its loop, with the output
  buffer kept as the list of elements written so far, last element first.
\<close>

fun split_slash :: "string \<Rightarrow> string list" where
  "split_slash [] = [[]]"
| "split_slash (c # cs) =
     (if c = CHR ''/'' then [] # split_slash cs
      else (case split_slash cs of [] \<Rightarrow> [[c]] | x # xs \<Rightarrow> (c # x) # xs))"

fun join_slash :: "string list \<Rightarrow> string" where
  "join_slash [] = []"
| "join_slash [x] = x"
| "join_slash (x # y # ys) = x @ CHR ''/'' # join_slash (y # ys)"

definition clean_elem :: "bool \<Rightarrow> string list \<Rightarrow> string \<Rightarrow> string list" where
  "clean_elem rooted out e =
     (if e = [] \<or> e = ''.'' then out
      else if e = ''..'' then
        (case out of
           x # xs \<Rightarrow> if x \<noteq> ''..'' then xs else if rooted then out else e # out
         | [] \<Rightarrow> if rooted then out else [e])
      else e # out)"

definition path_Clean :: "string \<Rightarrow> string" where
  "path_Clean p =
     (if p = [] then ''.''
      else
        let rooted = (take 1 p = ''/'');
            out = rev (foldl (clean_elem rooted) [] (split_slash p));
            s = (if rooted then ''/'' else []) @ join_slash out
        in if s = [] then ''.'' else s)"

definition cleanPath :: "string \<Rightarrow> string" where
  "cleanPath p = path_Clean (ReplaceAll_slashes p)"

text \<open>A path has a repeated separator when two slashes stand next to each other.\<close>

fun repeated_slash :: "string \<Rightarrow> bool" where
  "repeated_slash (a # b # cs) = ((a = CHR ''/'' \<and> b = CHR ''/'') \<or> repeated_slash (b # cs))"
| "repeated_slash cs = False"

section \<open>Collaborators outside the repository\<close>

text \<open>
  The parsers the crawler calls are not part of the repository: \<open>net/url\<close>,
  \<open>golang.org/x/net/html\<close>, \<open>encoding/xml\<close> and \<open>temoto/robotstxt\<close>. They are
  parameters of the model, collected in \<open>env\<close>; every theorem below holds for all of
  them. What the network answers to a request is a parameter too (\<open>http_result\<close>),
  handed to the function that makes the request.
\<close>

datatype NodeType = ElementNode | OtherNode

datatype Node = Node (Type: NodeType) (Data: string) (Attr: "(string \<times> string) list")
  (Children: "Node list")

datatype UrlEntry = UrlEntry (Loc: string)

datatype UrlSet = UrlSet (URLs: "UrlEntry list")

text \<open>
  Modelled from the spec: the compiled robots policy and its matching, which live in
  the third-party package \<open>temoto/robotstxt\<close>. The spec (4.1) says: agent-group
  selection by exact or wildcard user-agent match, longest-matching Disallow/Allow
  prefix wins, an empty \<open>Disallow:\<close> allows everything for that agent, and no
  matching rule means allowed. A policy is the list of its groups, each an agent name
  with its rules; the allow-all policy has no group.
\<close>

datatype rule = Rule (rule_path: string) (rule_allow: bool)

datatype RobotsData = RobotsData (groups: "(string \<times> rule list) list")

definition allow_all :: RobotsData where
  "allow_all = RobotsData []"

definition FindGroup :: "RobotsData \<Rightarrow> string \<Rightarrow> rule list" where
  "FindGroup r agent =
     (case map_of (groups r) agent of
        Some g \<Rightarrow> g
      | None \<Rightarrow> (case map_of (groups r) ''*'' of Some g \<Rightarrow> g | None \<Rightarrow> []))"

definition rule_matches :: "rule \<Rightarrow> string \<Rightarrow> bool" where
  "rule_matches r p = (rule_path r \<noteq> [] \<and> prefix (rule_path r) p)"

fun findRule :: "rule list \<Rightarrow> string \<Rightarrow> rule option" where
  "findRule [] p = None"
| "findRule (r # rs) p =
     (if rule_matches r p then
        (case findRule rs p of
           None \<Rightarrow> Some r
         | Some r' \<Rightarrow> if length (rule_path r) < length (rule_path r') then Some r' else Some r)
      else findRule rs p)"

definition TestAgent :: "RobotsData \<Rightarrow> string \<Rightarrow> string \<Rightarrow> bool" where
  "TestAgent r p agent =
     (case findRule (FindGroup r agent) p of None \<Rightarrow> True | Some ru \<Rightarrow> rule_allow ru)"

record env =
  url_Parse :: "string \<Rightarrow> error + URL"
  url_ResolveReference :: "URL \<Rightarrow> URL \<Rightarrow> URL"
  html_Parse :: "string \<Rightarrow> error + Node"
  xml_Unmarshal :: "string \<Rightarrow> error + UrlSet"
  robotstxt_FromString :: "string \<Rightarrow> error + RobotsData"

text \<open>
  \<open>base.Parse(ref)\<close> of \<open>net/url\<close> parses \<open>ref\<close> and resolves it against \<open>base\<close>;
  it fails exactly when the parse fails.
\<close>

definition URL_Parse :: "env \<Rightarrow> URL \<Rightarrow> string \<Rightarrow> error + URL" where
  "URL_Parse env base ref =
     (case url_Parse env ref of
        Inl err \<Rightarrow> Inl err
      | Inr refURL \<Rightarrow> Inr (url_ResolveReference env base refURL))"

section \<open>The stateless helpers of the repository\<close>

subsection \<open>ResolveAndCleanURL\<close>

definition ResolveAndCleanURL :: "env \<Rightarrow> URL \<Rightarrow> string \<Rightarrow> error + URL" where
  "ResolveAndCleanURL env base href =
     (case url_Parse env href of
        Inl err \<Rightarrow> Inl err
      | Inr parsedHref \<Rightarrow>
          let resolved = (if IsAbs parsedHref then parsedHref
                          else url_ResolveReference env base parsedHref);
              resolved = resolved\<lparr>Fragment := []\<rparr>;
              resolved = resolved\<lparr>Path := cleanPath (Path resolved)\<rparr>
          in Inr resolved)"

subsection \<open>FetchPage\<close>

text \<open>
  What \<open>FetchPage\<close> can meet: building the request fails, the round trip fails
  (transport error, timeout, cancellation), or a response arrives with a status code
  and a body that can be read or not.
\<close>

datatype http_result =
    RequestFailed error
  | DoFailed error
  | Response int "error + string"

definition FetchPage :: "http_result \<Rightarrow> URL \<Rightarrow> error + string" where
  "FetchPage res url =
     (case res of
        RequestFailed err \<Rightarrow> Inl err
      | DoFailed err \<Rightarrow> Inl err
      | Response StatusCode body \<Rightarrow>
          if StatusCode < 200 \<or> StatusCode \<ge> 300 then Inl (httpError StatusCode (url_String url))
          else (case body of Inl err \<Rightarrow> Inl err | Inr b \<Rightarrow> Inr b))"

subsection \<open>ExtractLinks and ParseSitemapForUrls\<close>

fun links_of :: "Node \<Rightarrow> string list" where
  "links_of (Node t d attrs cs) =
     (if t = ElementNode \<and> d = ''a'' then map snd (filter (\<lambda>a. fst a = ''href'') attrs) else [])
     @ concat (map links_of cs)"

definition ExtractLinks :: "env \<Rightarrow> string \<Rightarrow> error + string list" where
  "ExtractLinks env htmlContent =
     (case html_Parse env htmlContent of
        Inl err \<Rightarrow> Inl err
      | Inr doc \<Rightarrow> Inr (links_of doc))"

definition ParseSitemapForUrls :: "env \<Rightarrow> string \<Rightarrow> error + string list" where
  "ParseSitemapForUrls env sitemap =
     (case xml_Unmarshal env sitemap of
        Inl err \<Rightarrow> Inl err
      | Inr urlSet \<Rightarrow>
          Inr (foldl (\<lambda>acc entry. if Loc entry \<noteq> [] then acc @ [Loc entry] else acc) []
                 (URLs urlSet)))"

subsection \<open>RobotsChecker\<close>

text \<open>
  A checker holds the loaded policy. \<open>NewRobotsChecker\<close> is the only way the crawler
  builds one, so the unloaded checker (a nil policy) is not a value of the model.
\<close>

record RobotsChecker =
  robotsData :: RobotsData

definition LoadRobots :: "env \<Rightarrow> string \<Rightarrow> error + RobotsChecker" where
  "LoadRobots env pageContent =
     (case robotstxt_FromString env pageContent of
        Inl err \<Rightarrow> Inl err
      | Inr robots \<Rightarrow> Inr \<lparr>robotsData = robots\<rparr>)"

definition IsAllowed :: "RobotsChecker \<Rightarrow> string \<Rightarrow> string \<Rightarrow> bool" where
  "IsAllowed rc path userAgent = TestAgent (robotsData rc) path userAgent"

definition NewRobotsChecker :: "env \<Rightarrow> string \<Rightarrow> error + RobotsChecker" where
  "NewRobotsChecker env robotsTxt =
     (case LoadRobots env robotsTxt of
        Inl err \<Rightarrow> Inl err
      | Inr rc \<Rightarrow> Inr rc)"

section \<open>The site crawler\<close>

text \<open>
  Where \<open>Crawl\<close> stands: the line of \<open>Crawl\<close> its goroutine executes next, or the
  value it returned (\<open>None\<close> is \<open>nil\<close>).
\<close>

datatype pc =
    AtCrawlFromSiteMap
  | AtAddBaseURL
  | AtCrawlWgWait
  | AtCloseCrawlQueue
  | AtClosePostProcessQueue
  | AtPostProcessWgWait
  | Returned "error option"

type_synonym PostProcessor = nat

text \<open>
  The struct \<open>SiteCrawler\<close> with its Go field names (the logger is left out: logging
  changes nothing the crawler reads). A channel of closures is the list of the
  pending tasks in arrival order: a crawl task is the URL its closure passes to
  \<open>CrawlPage\<close>, a post-process task is the processor, the page URL and the page
  content its closure passes to \<open>Process\<close>. A \<open>sync.WaitGroup\<close> is its counter, and
  the \<open>sync.Map\<close> \<open>crawledPages\<close> is its set of keys (\<open>LoadOrStore\<close> is atomic: it
  stores the key and tells whether it was there).

  The second group of fields is the run-time state Go keeps outside the struct:
  whether each channel was closed, whether the context handed to the crawler was
  cancelled (one context serves a whole crawl), whether the process died in a
  panic (a send on a closed channel, closing a channel twice), how many workers of
  each pool still run, and where \<open>Crawl\<close> stands. The last three fields are
  histories of effects, never read by the crawler: the URLs sent on the crawl queue,
  the URLs \<open>CrawlPage\<close> called \<open>FetchPage\<close> for, and the calls of \<open>Process\<close>.

  The channels are taken as unbounded (their capacities, 100000 and 24, are not
  modelled), and each call of a function of the crawler is one atomic step.
\<close>

record SiteCrawler =
  RobotsChecker :: RobotsChecker
  BaseURL :: URL
  TimeoutMilliseconds :: int
  CrawlQueue :: "URL list"
  crawlWg :: int
  PostProcessQueue :: "(PostProcessor \<times> URL \<times> string) list"
  postProcessWg :: int
  UserAgent :: string
  WorkerPoolSize :: int
  crawledPages :: "string set"
  postProcessors :: "PostProcessor list"
  CrawlQueue_closed :: bool
  PostProcessQueue_closed :: bool
  ctx_done :: bool
  panicked :: bool
  crawlWorkers :: nat
  postProcessWorkers :: nat
  crawl_pc :: pc
  sent :: "URL list"
  fetched :: "URL list"
  processed :: "(PostProcessor \<times> URL \<times> string) list"

subsection \<open>Admission\<close>

definition AddURLToCrawlQueue :: "URL \<Rightarrow> SiteCrawler \<Rightarrow> SiteCrawler" where
  "AddURLToCrawlQueue url sc =
     (if panicked sc then sc
      else if \<not> IsAllowed (RobotsChecker sc) (url_String url) (UserAgent sc) then sc
      else if Host url \<noteq> Host (BaseURL sc) then sc
      else if url_String url \<in> crawledPages sc then sc
      else
        let sc = sc\<lparr>crawledPages := insert (url_String url) (crawledPages sc)\<rparr>;
            sc = sc\<lparr>crawlWg := crawlWg sc + 1\<rparr>
        in if CrawlQueue_closed sc then sc\<lparr>panicked := True\<rparr>
           else sc\<lparr>CrawlQueue := CrawlQueue sc @ [url], sent := sent sc @ [url]\<rparr>)"

text \<open>
  One round of the loop of \<open>AddURLToPostProcessQueue\<close>, then the loop. The closure of
  each round holds the processor of that round (the loop variable is a new one in
  every round, as from Go 1.22 on).
\<close>

definition enqueue_processor ::
    "URL \<Rightarrow> string \<Rightarrow> SiteCrawler \<Rightarrow> PostProcessor \<Rightarrow> SiteCrawler" where
  "enqueue_processor pageURL pageContent sc processor =
     (if panicked sc then sc
      else
        let sc = sc\<lparr>postProcessWg := postProcessWg sc + 1\<rparr>
        in if PostProcessQueue_closed sc then sc\<lparr>panicked := True\<rparr>
           else sc\<lparr>PostProcessQueue :=
                      PostProcessQueue sc @ [(processor, pageURL, pageContent)]\<rparr>)"

definition AddURLToPostProcessQueue :: "URL \<Rightarrow> string \<Rightarrow> SiteCrawler \<Rightarrow> SiteCrawler" where
  "AddURLToPostProcessQueue pageURL pageContent sc =
     foldl (enqueue_processor pageURL pageContent) sc (postProcessors sc)"

subsection \<open>CrawlPage\<close>

text \<open>One round of the loop over the links of a page.\<close>

definition admit_link :: "env \<Rightarrow> SiteCrawler \<Rightarrow> string \<Rightarrow> SiteCrawler" where
  "admit_link env sc link =
     (case ResolveAndCleanURL env (BaseURL sc) link of
        Inl err \<Rightarrow> sc
      | Inr parsedLink \<Rightarrow> AddURLToCrawlQueue parsedLink sc)"

definition CrawlPage :: "env \<Rightarrow> http_result \<Rightarrow> URL \<Rightarrow> SiteCrawler \<Rightarrow> SiteCrawler" where
  "CrawlPage env res pageURL sc =
     (if panicked sc then sc
      else if ctx_done sc then sc
      else
        let sc = sc\<lparr>fetched := fetched sc @ [pageURL]\<rparr>
        in case FetchPage res pageURL of
             Inl err \<Rightarrow> sc
           | Inr page \<Rightarrow>
               (case ExtractLinks env page of
                  Inl err \<Rightarrow> sc
                | Inr links \<Rightarrow>
                    AddURLToPostProcessQueue pageURL page (foldl (admit_link env) sc links)))"

subsection \<open>CrawlFromSiteMap\<close>

definition admit_sitemap_url :: "env \<Rightarrow> SiteCrawler \<Rightarrow> string \<Rightarrow> SiteCrawler" where
  "admit_sitemap_url env sc raw =
     (case ResolveAndCleanURL env (BaseURL sc) raw of
        Inl err \<Rightarrow> sc
      | Inr parsed \<Rightarrow> AddURLToCrawlQueue (url_ResolveReference env (BaseURL sc) parsed) sc)"

definition CrawlFromSiteMap ::
    "env \<Rightarrow> http_result \<Rightarrow> SiteCrawler \<Rightarrow> error option \<times> SiteCrawler" where
  "CrawlFromSiteMap env res sc =
     (case URL_Parse env (BaseURL sc) ''/sitemap.xml'' of
        Inl err \<Rightarrow> (Some err, sc)
      | Inr siteMapUrl \<Rightarrow>
          (case FetchPage res siteMapUrl of
             Inl err \<Rightarrow> (None, sc)
           | Inr siteMap \<Rightarrow>
               (case ParseSitemapForUrls env siteMap of
                  Inl err \<Rightarrow> (None, sc)
                | Inr siteMapUrls \<Rightarrow> (None, foldl (admit_sitemap_url env) sc siteMapUrls))))"

subsection \<open>NewSiteCrawler\<close>

definition NewSiteCrawler ::
    "env \<Rightarrow> http_result \<Rightarrow> URL \<Rightarrow> int \<Rightarrow> string \<Rightarrow> int \<Rightarrow> PostProcessor list
      \<Rightarrow> error + SiteCrawler" where
  "NewSiteCrawler env res baseURL pageLoadTimeoutMilliseconds userAgent workerPoolSize procs =
     (case URL_Parse env baseURL ''/robots.txt'' of
        Inl err \<Rightarrow> Inl err
      | Inr robotsUrl \<Rightarrow>
          let robots = (case FetchPage res robotsUrl of Inl err \<Rightarrow> [] | Inr body \<Rightarrow> body)
          in (case NewRobotsChecker env robots of
               Inl err \<Rightarrow> Inl err
             | Inr robotsChecker \<Rightarrow>
                 Inr \<lparr>RobotsChecker = robotsChecker,
                      BaseURL = baseURL,
                      TimeoutMilliseconds = pageLoadTimeoutMilliseconds,
                      CrawlQueue = [],
                      crawlWg = 0,
                      PostProcessQueue = [],
                      postProcessWg = 0,
                      UserAgent = userAgent,
                      WorkerPoolSize = workerPoolSize,
                      crawledPages = {},
                      postProcessors = procs,
                      CrawlQueue_closed = False,
                      PostProcessQueue_closed = False,
                      ctx_done = False,
                      panicked = False,
                      crawlWorkers = 0,
                      postProcessWorkers = 0,
                      crawl_pc = AtCrawlFromSiteMap,
                      sent = [],
                      fetched = [],
                      processed = []\<rparr>))"

subsection \<open>Crawl and the workers\<close>

text \<open>
  A run of the crawler is a sequence of events, each one atomic step of one
  goroutine:
  \<^item> \<open>Cancel\<close>: the caller cancels the context;
  \<^item> \<open>Submit url\<close>: some goroutine outside the crawl calls \<open>AddURLToCrawlQueue\<close>;
  \<^item> \<open>Orchestrator res\<close>: \<open>Crawl\<close> executes its next line (\<open>res\<close> is what the network
    answers to the sitemap request, read by the first step only); a \<open>Wait\<close> whose
    counter is not zero stays where it is;
  \<^item> \<open>CrawlWorkerRecv res\<close>: the \<open>select\<close> of a crawl worker takes the queue branch:
    it runs the first pending task (\<open>res\<close> is what the network answers to its
    request), or returns when the queue is closed and empty, or keeps waiting;
  \<^item> \<open>CrawlWorkerDone\<close>: the \<open>select\<close> of a crawl worker takes the branch of the
    cancelled context and the worker returns;
  \<^item> \<open>PostProcessWorkerRecv\<close>, \<open>PostProcessWorkerDone\<close>: the same for a
    post-process worker.
  Go's \<open>select\<close> picks any ready branch, so after a cancellation both branches of a
  worker are possible while tasks are pending.
\<close>

datatype event =
    Cancel
  | Submit URL
  | Orchestrator http_result
  | CrawlWorkerRecv http_result
  | CrawlWorkerDone
  | PostProcessWorkerRecv
  | PostProcessWorkerDone

text \<open>The closure \<open>AddURLToCrawlQueue\<close> sends: \<open>CrawlPage\<close>, then the deferred \<open>Done\<close>.\<close>

definition crawl_task :: "env \<Rightarrow> http_result \<Rightarrow> URL \<Rightarrow> SiteCrawler \<Rightarrow> SiteCrawler" where
  "crawl_task env res url sc =
     (let sc = CrawlPage env res url sc in sc\<lparr>crawlWg := crawlWg sc - 1\<rparr>)"

text \<open>
  The closure \<open>AddURLToPostProcessQueue\<close> sends: \<open>Process\<close>, then the deferred \<open>Done\<close>.
  What \<open>Process\<close> returns is only logged, so the model records the call and nothing
  of its result.
\<close>

definition post_process_task :: "PostProcessor \<times> URL \<times> string \<Rightarrow> SiteCrawler \<Rightarrow> SiteCrawler" where
  "post_process_task t sc =
     (let sc = sc\<lparr>processed := processed sc @ [t]\<rparr> in sc\<lparr>postProcessWg := postProcessWg sc - 1\<rparr>)"

definition Crawl_step :: "env \<Rightarrow> http_result \<Rightarrow> SiteCrawler \<Rightarrow> SiteCrawler" where
  "Crawl_step env res sc =
     (case crawl_pc sc of
        AtCrawlFromSiteMap \<Rightarrow>
          (let sc = sc\<lparr>crawlWorkers := nat (WorkerPoolSize sc)\<rparr>;
               sc = sc\<lparr>postProcessWorkers := nat (WorkerPoolSize sc)\<rparr>
           in case CrawlFromSiteMap env res sc of
                (Some err, sc) \<Rightarrow> sc\<lparr>crawl_pc := Returned (Some err)\<rparr>
              | (None, sc) \<Rightarrow> sc\<lparr>crawl_pc := AtAddBaseURL\<rparr>)
      | AtAddBaseURL \<Rightarrow> (AddURLToCrawlQueue (BaseURL sc) sc)\<lparr>crawl_pc := AtCrawlWgWait\<rparr>
      | AtCrawlWgWait \<Rightarrow> if crawlWg sc = 0 then sc\<lparr>crawl_pc := AtCloseCrawlQueue\<rparr> else sc
      | AtCloseCrawlQueue \<Rightarrow>
          if CrawlQueue_closed sc then sc\<lparr>panicked := True\<rparr>
          else sc\<lparr>CrawlQueue_closed := True, crawl_pc := AtClosePostProcessQueue\<rparr>
      | AtClosePostProcessQueue \<Rightarrow>
          if PostProcessQueue_closed sc then sc\<lparr>panicked := True\<rparr>
          else sc\<lparr>PostProcessQueue_closed := True, crawl_pc := AtPostProcessWgWait\<rparr>
      | AtPostProcessWgWait \<Rightarrow>
          if postProcessWg sc = 0 then sc\<lparr>crawl_pc := Returned None\<rparr> else sc
      | Returned r \<Rightarrow> sc)"

definition step :: "env \<Rightarrow> SiteCrawler \<Rightarrow> event \<Rightarrow> SiteCrawler" where
  "step env sc e =
     (if panicked sc then sc
      else case e of
        Cancel \<Rightarrow> sc\<lparr>ctx_done := True\<rparr>
      | Submit url \<Rightarrow> AddURLToCrawlQueue url sc
      | Orchestrator res \<Rightarrow> Crawl_step env res sc
      | CrawlWorkerRecv res \<Rightarrow>
          if crawlWorkers sc = 0 then sc
          else (case CrawlQueue sc of
                  [] \<Rightarrow> if CrawlQueue_closed sc then sc\<lparr>crawlWorkers := crawlWorkers sc - 1\<rparr>
                        else sc
                | url # rest \<Rightarrow> crawl_task env res url (sc\<lparr>CrawlQueue := rest\<rparr>))
      | CrawlWorkerDone \<Rightarrow>
          if crawlWorkers sc \<noteq> 0 \<and> ctx_done sc then sc\<lparr>crawlWorkers := crawlWorkers sc - 1\<rparr>
          else sc
      | PostProcessWorkerRecv \<Rightarrow>
          if postProcessWorkers sc = 0 then sc
          else (case PostProcessQueue sc of
                  [] \<Rightarrow> if PostProcessQueue_closed sc
                        then sc\<lparr>postProcessWorkers := postProcessWorkers sc - 1\<rparr>
                        else sc
                | t # rest \<Rightarrow> post_process_task t (sc\<lparr>PostProcessQueue := rest\<rparr>))
      | PostProcessWorkerDone \<Rightarrow>
          if postProcessWorkers sc \<noteq> 0 \<and> ctx_done sc
          then sc\<lparr>postProcessWorkers := postProcessWorkers sc - 1\<rparr>
          else sc)"

definition run :: "env \<Rightarrow> SiteCrawler \<Rightarrow> event list \<Rightarrow> SiteCrawler" where
  "run env sc es = foldl (step env) sc es"

section \<open>Predicates used in the statements\<close>

text \<open>
  The elements \<open>path.Clean\<close> keeps are plain: none is empty and none holds a slash.
  They are cleaned: none is \<open>.\<close>, and in a rooted path none is \<open>..\<close>.
\<close>

definition plain_elems :: "string list \<Rightarrow> bool" where
  "plain_elems out = (\<forall>x \<in> set out. x \<noteq> [] \<and> CHR ''/'' \<notin> set x)"

definition cleaned_elems :: "bool \<Rightarrow> string list \<Rightarrow> bool" where
  "cleaned_elems rooted out = (\<forall>x \<in> set out. x \<noteq> ''.'' \<and> (rooted \<longrightarrow> x \<noteq> ''..''))"

text \<open>
  An admission changes the dedup ledger, the crawl counter, the crawl queue and the
  history of sends, and may end in a panic; \<open>same_rest\<close> says every other field is
  as before.
\<close>

definition same_rest :: "SiteCrawler \<Rightarrow> SiteCrawler \<Rightarrow> bool" where
  "same_rest sc sc' =
     (RobotsChecker sc' = RobotsChecker sc \<and> BaseURL sc' = BaseURL sc \<and>
      TimeoutMilliseconds sc' = TimeoutMilliseconds sc \<and>
      PostProcessQueue sc' = PostProcessQueue sc \<and> postProcessWg sc' = postProcessWg sc \<and>
      UserAgent sc' = UserAgent sc \<and> WorkerPoolSize sc' = WorkerPoolSize sc \<and>
      postProcessors sc' = postProcessors sc \<and>
      CrawlQueue_closed sc' = CrawlQueue_closed sc \<and>
      PostProcessQueue_closed sc' = PostProcessQueue_closed sc \<and>
      ctx_done sc' = ctx_done sc \<and> crawlWorkers sc' = crawlWorkers sc \<and>
      postProcessWorkers sc' = postProcessWorkers sc \<and> crawl_pc sc' = crawl_pc sc \<and>
      fetched sc' = fetched sc \<and> processed sc' = processed sc)"

text \<open>
  \<open>admission sc sc'\<close>: \<open>sc'\<close> comes from \<open>sc\<close> by calls of \<open>AddURLToCrawlQueue\<close> alone.
  The URLs \<open>new\<close> were sent on the crawl queue, in this order; their canonical
  strings differ from each other and were not in the ledger, their hosts are the base
  host, and the robots check let their strings pass. The ledger holds them now, and
  unless a send panicked it holds nothing else new and the counter went up by their
  number. A panic needs a closed crawl queue.
\<close>

definition admission :: "SiteCrawler \<Rightarrow> SiteCrawler \<Rightarrow> bool" where
  "admission sc sc' =
     (\<exists>new.
        sent sc' = sent sc @ new \<and> CrawlQueue sc' = CrawlQueue sc @ new \<and>
        distinct (map url_String new) \<and>
        (\<forall>u \<in> set new. url_String u \<notin> crawledPages sc \<and> Host u = Host (BaseURL sc) \<and>
           IsAllowed (RobotsChecker sc) (url_String u) (UserAgent sc)) \<and>
        crawledPages sc \<union> url_String ` set new \<subseteq> crawledPages sc' \<and>
        (panicked sc \<longrightarrow> sc' = sc) \<and>
        (\<not> panicked sc' \<longrightarrow>
           crawledPages sc' = crawledPages sc \<union> url_String ` set new \<and>
           crawlWg sc' = crawlWg sc + int (length new)) \<and>
        (panicked sc' \<and> \<not> panicked sc \<longrightarrow> CrawlQueue_closed sc) \<and>
        same_rest sc sc')"

text \<open>
  \<open>grows sc sc'\<close>: what every step keeps. The histories of sends and fetches only
  get longer, the ledger only gets larger, the configuration stays, a cancelled
  context stays cancelled and lets no fetch happen, and a dead process stays dead.
\<close>

definition grows :: "SiteCrawler \<Rightarrow> SiteCrawler \<Rightarrow> bool" where
  "grows sc sc' =
     (prefix (sent sc) (sent sc') \<and> prefix (fetched sc) (fetched sc') \<and>
      crawledPages sc \<subseteq> crawledPages sc' \<and>
      BaseURL sc' = BaseURL sc \<and> RobotsChecker sc' = RobotsChecker sc \<and>
      UserAgent sc' = UserAgent sc \<and> postProcessors sc' = postProcessors sc \<and>
      (ctx_done sc \<longrightarrow> ctx_done sc' \<and> fetched sc' = fetched sc) \<and>
      (panicked sc \<longrightarrow> panicked sc'))"

text \<open>
  The invariant of admission: the URLs sent on the crawl queue have different
  canonical strings, all of them in the ledger (and, while nothing panicked, the ledger
  holds nothing else), all on the base host; the pending tasks are the last sends,
  and the pages fetched are among the tasks taken before, in the same order.
\<close>

definition admitted_inv :: "SiteCrawler \<Rightarrow> bool" where
  "admitted_inv sc =
     (distinct (map url_String (sent sc)) \<and>
      url_String ` set (sent sc) \<subseteq> crawledPages sc \<and>
      (\<not> panicked sc \<longrightarrow> crawledPages sc \<subseteq> url_String ` set (sent sc)) \<and>
      (\<forall>u \<in> set (sent sc). Host u = Host (BaseURL sc)) \<and>
      (\<exists>popped. sent sc = popped @ CrawlQueue sc \<and> subseq (fetched sc) popped))"

text \<open>
  Where \<open>Crawl\<close> stands once \<open>crawlWg.Wait()\<close> has returned, once the crawl queue is
  closed, and once the post-process queue is closed.
\<close>

fun drained :: "pc \<Rightarrow> bool" where
  "drained AtCrawlFromSiteMap = False"
| "drained AtAddBaseURL = False"
| "drained AtCrawlWgWait = False"
| "drained AtCloseCrawlQueue = True"
| "drained AtClosePostProcessQueue = True"
| "drained AtPostProcessWgWait = True"
| "drained (Returned r) = (r = None)"

fun crawl_queue_closed_at :: "pc \<Rightarrow> bool" where
  "crawl_queue_closed_at AtClosePostProcessQueue = True"
| "crawl_queue_closed_at AtPostProcessWgWait = True"
| "crawl_queue_closed_at (Returned r) = (r = None)"
| "crawl_queue_closed_at p = False"

fun post_process_queue_closed_at :: "pc \<Rightarrow> bool" where
  "post_process_queue_closed_at AtPostProcessWgWait = True"
| "post_process_queue_closed_at (Returned r) = (r = None)"
| "post_process_queue_closed_at p = False"

text \<open>
  The invariant of a run of \<open>Crawl\<close> with no admission from outside: nothing
  panicked, each counter is the number of pending tasks of its queue (a running task
  is one atomic step), the crawl queue is empty once the wait for its counter has
  returned, each queue is closed exactly from the line after its \<open>close\<close> on, and the
  post-process queue is empty once \<open>Crawl\<close> returned \<open>nil\<close>.
\<close>

definition crawl_inv :: "SiteCrawler \<Rightarrow> bool" where
  "crawl_inv sc =
     (\<not> panicked sc \<and>
      crawlWg sc = int (length (CrawlQueue sc)) \<and>
      postProcessWg sc = int (length (PostProcessQueue sc)) \<and>
      (drained (crawl_pc sc) \<longrightarrow> CrawlQueue sc = []) \<and>
      CrawlQueue_closed sc = crawl_queue_closed_at (crawl_pc sc) \<and>
      PostProcessQueue_closed sc = post_process_queue_closed_at (crawl_pc sc) \<and>
      (crawl_pc sc = Returned None \<longrightarrow> PostProcessQueue sc = []))"

text \<open>
  An event that is a call from outside the crawl.
\<close>

definition outside_call :: "event \<Rightarrow> bool" where
  "outside_call e = (case e of Submit url \<Rightarrow> True | _ \<Rightarrow> False)"

section \<open>A concrete site\<close>

text \<open>
  The concrete inputs of the examples below: a crawler for \<open>https://example.com\<close>
  and stand-ins for the library parsers that answer on the few strings the examples
  use. \<open>example_parse\<close> reads a reference that starts with a slash as a path, and a
  string that starts with \<open>https://example.com\<close> or \<open>https://other.org\<close> as an
  absolute URL with the rest as its path.
\<close>

definition example_base :: URL where
  "example_base =
     \<lparr>Scheme = ''https'', Host = ''example.com'', Path = [], RawQuery = [], Fragment = []\<rparr>"

definition example_parse :: "string \<Rightarrow> error + URL" where
  "example_parse s =
     (if take 1 s = ''/'' then
        Inr \<lparr>Scheme = [], Host = [], Path = s, RawQuery = [], Fragment = []\<rparr>
      else if take 19 s = ''https://example.com'' then
        Inr \<lparr>Scheme = ''https'', Host = ''example.com'', Path = drop 19 s, RawQuery = [],
             Fragment = []\<rparr>
      else if take 17 s = ''https://other.org'' then
        Inr \<lparr>Scheme = ''https'', Host = ''other.org'', Path = drop 17 s, RawQuery = [],
             Fragment = []\<rparr>
      else Inl (LibraryError ''parse''))"

definition example_resolve :: "URL \<Rightarrow> URL \<Rightarrow> URL" where
  "example_resolve b r = (if Scheme r \<noteq> [] then r else r\<lparr>Scheme := Scheme b, Host := Host b\<rparr>)"

definition example_env :: env where
  "example_env =
     \<lparr>url_Parse = example_parse,
      url_ResolveReference = example_resolve,
      html_Parse = (\<lambda>s. if s = ''deep'' then Inl (LibraryError ''html'')
                         else if s = ''link'' then
                           Inr (Node ElementNode ''a'' [(''href'', ''/next'')] [])
                         else Inr (Node OtherNode [] [] [])),
      xml_Unmarshal = (\<lambda>s. if s = [] then Inl (LibraryError ''EOF'')
                            else Inr (UrlSet [UrlEntry s])),
      robotstxt_FromString = (\<lambda>s. if s = [] then Inr allow_all
                                   else if s = ''Disallow: /'' then
                                     Inl (LibraryError ''Disallow before User-agent'')
                                   else Inr (RobotsData [(''*'', [Rule ''/private'' False])]))\<rparr>"

text \<open>
  The crawler \<open>NewSiteCrawler\<close> builds for \<open>https://example.com\<close> when
  \<open>/robots.txt\<close> answers 404: one worker per pool, one processor, everything allowed.
\<close>

definition example_crawler :: SiteCrawler where
  "example_crawler =
     \<lparr>RobotsChecker = \<lparr>robotsData = allow_all\<rparr>,
      BaseURL = example_base,
      TimeoutMilliseconds = 1000,
      CrawlQueue = [],
      crawlWg = 0,
      PostProcessQueue = [],
      postProcessWg = 0,
      UserAgent = ''Crawler'',
      WorkerPoolSize = 1,
      crawledPages = {},
      postProcessors = [0],
      CrawlQueue_closed = False,
      PostProcessQueue_closed = False,
      ctx_done = False,
      panicked = False,
      crawlWorkers = 0,
      postProcessWorkers = 0,
      crawl_pc = AtCrawlFromSiteMap,
      sent = [],
      fetched = [],
      processed = []\<rparr>"

definition example_page :: "string \<Rightarrow> URL" where
  "example_page p =
     \<lparr>Scheme = ''https'', Host = ''example.com'', Path = p, RawQuery = [], Fragment = []\<rparr>"

text \<open>
  Concurrent callers of \<open>AddURLToCrawlQueue\<close>, statement by statement. A caller is the
  URL it was called with and the statement it executes next: the robots check, the
  host check, \<open>LoadOrStore\<close>, \<open>crawlWg.Add(1)\<close>, the send, or returned. \<open>caller_step\<close>
  executes that one statement on the shared crawler; a schedule names, step by step,
  the caller that moves.
\<close>

datatype add_pc = AtRobotsCheck | AtHostCheck | AtLoadOrStore | AtWgAdd | AtSend | AddReturned

definition caller_step :: "SiteCrawler \<Rightarrow> URL \<times> add_pc \<Rightarrow> SiteCrawler \<times> (URL \<times> add_pc)" where
  "caller_step sc c =
     (case c of (url, p) \<Rightarrow>
        if panicked sc then (sc, c)
        else (case p of
          AtRobotsCheck \<Rightarrow>
            if \<not> IsAllowed (RobotsChecker sc) (url_String url) (UserAgent sc)
            then (sc, (url, AddReturned)) else (sc, (url, AtHostCheck))
        | AtHostCheck \<Rightarrow>
            if Host url \<noteq> Host (BaseURL sc)
            then (sc, (url, AddReturned)) else (sc, (url, AtLoadOrStore))
        | AtLoadOrStore \<Rightarrow>
            if url_String url \<in> crawledPages sc then (sc, (url, AddReturned))
            else (sc\<lparr>crawledPages := insert (url_String url) (crawledPages sc)\<rparr>, (url, AtWgAdd))
        | AtWgAdd \<Rightarrow> (sc\<lparr>crawlWg := crawlWg sc + 1\<rparr>, (url, AtSend))
        | AtSend \<Rightarrow>
            if CrawlQueue_closed sc then (sc\<lparr>panicked := True\<rparr>, c)
            else (sc\<lparr>CrawlQueue := CrawlQueue sc @ [url], sent := sent sc @ [url]\<rparr>,
                  (url, AddReturned))
        | AddReturned \<Rightarrow> (sc, c)))"

definition callers_step ::
    "SiteCrawler \<times> (URL \<times> add_pc) list \<Rightarrow> nat \<Rightarrow> SiteCrawler \<times> (URL \<times> add_pc) list" where
  "callers_step st i =
     (case st of (sc, cs) \<Rightarrow>
        if i < length cs
        then (case caller_step sc (cs ! i) of (sc', c') \<Rightarrow> (sc', cs[i := c']))
        else st)"

definition callers_run ::
    "SiteCrawler \<times> (URL \<times> add_pc) list \<Rightarrow> nat list \<Rightarrow> SiteCrawler \<times> (URL \<times> add_pc) list" where
  "callers_run st schedule = foldl callers_step st schedule"

text \<open>A caller holds a won admission between its \<open>LoadOrStore\<close> and its send.\<close>

definition holds_admission :: "URL \<times> add_pc \<Rightarrow> bool" where
  "holds_admission c = (snd c = AtWgAdd \<or> snd c = AtSend)"

definition callers_inv :: "SiteCrawler \<times> (URL \<times> add_pc) list \<Rightarrow> bool" where
  "callers_inv st =
     (case st of (sc, cs) \<Rightarrow>
        distinct (map url_String (sent sc)) \<and>
        url_String ` set (sent sc) \<subseteq> crawledPages sc \<and>
        (\<forall>i < length cs. holds_admission (cs ! i) \<longrightarrow>
           url_String (fst (cs ! i)) \<in> crawledPages sc \<and>
           url_String (fst (cs ! i)) \<notin> url_String ` set (sent sc)) \<and>
        (\<forall>i < length cs. \<forall>j < length cs. i \<noteq> j \<and> holds_admission (cs ! i) \<and>
           holds_admission (cs ! j) \<longrightarrow> url_String (fst (cs ! i)) \<noteq> url_String (fst (cs ! j))) \<and>
        (\<not> panicked sc \<longrightarrow>
           (\<forall>k \<in> crawledPages sc. k \<in> url_String ` set (sent sc) \<or>
              (\<exists>i < length cs. holds_admission (cs ! i) \<and> url_String (fst (cs ! i)) = k))) \<and>
        (\<forall>i < length cs. snd (cs ! i) = AddReturned \<and>
           IsAllowed (RobotsChecker sc) (url_String (fst (cs ! i))) (UserAgent sc) \<and>
           Host (fst (cs ! i)) = Host (BaseURL sc) \<longrightarrow>
           url_String (fst (cs ! i)) \<in> crawledPages sc) \<and>
        (\<forall>i < length cs. snd (cs ! i) = AtHostCheck \<longrightarrow>
           IsAllowed (RobotsChecker sc) (url_String (fst (cs ! i))) (UserAgent sc)) \<and>
        (\<forall>i < length cs. snd (cs ! i) \<in> {AtLoadOrStore, AtWgAdd, AtSend} \<longrightarrow>
           IsAllowed (RobotsChecker sc) (url_String (fst (cs ! i))) (UserAgent sc) \<and>
           Host (fst (cs ! i)) = Host (BaseURL sc)))"

section \<open>Path cleaning: properties\<close>

lemma repeated_slash_append:
  "repeated_slash (xs @ ys) \<longleftrightarrow>
     repeated_slash xs \<or> repeated_slash ys \<or>
     (xs \<noteq> [] \<and> ys \<noteq> [] \<and> last xs = CHR ''/'' \<and> hd ys = CHR ''/'')"
proof (induction xs rule: repeated_slash.induct)
  fix v
  show "repeated_slash ([v] @ ys) \<longleftrightarrow>
          repeated_slash [v] \<or> repeated_slash ys \<or>
          ([v] \<noteq> [] \<and> ys \<noteq> [] \<and> last [v] = CHR ''/'' \<and> hd ys = CHR ''/'')"
    by (cases ys) auto
qed auto

lemma no_slash_not_repeated: "CHR ''/'' \<notin> set x \<Longrightarrow> \<not> repeated_slash x"
  by (induction x rule: repeated_slash.induct) auto

lemma split_slash_no_slash: "x \<in> set (split_slash p) \<Longrightarrow> CHR ''/'' \<notin> set x"
proof (induction p arbitrary: x)
  case Nil
  then show ?case by simp
next
  case (Cons c cs)
  then show ?case
    by (cases "split_slash cs") (auto split: if_splits)
qed

lemma split_slash_append_slash:
  "CHR ''/'' \<notin> set x \<Longrightarrow> split_slash (x @ CHR ''/'' # rest) = x # split_slash rest"
  by (induction x) auto

lemma split_slash_plain: "CHR ''/'' \<notin> set x \<Longrightarrow> split_slash x = [x]"
  by (induction x) auto

lemma plain_clean_elem:
  "plain_elems out \<Longrightarrow> CHR ''/'' \<notin> set e \<Longrightarrow> plain_elems (clean_elem rooted out e)"
  by (auto simp: plain_elems_def clean_elem_def split: list.splits)

lemma plain_foldl_clean_elem:
  "plain_elems out \<Longrightarrow> \<forall>e \<in> set es. CHR ''/'' \<notin> set e \<Longrightarrow>
   plain_elems (foldl (clean_elem rooted) out es)"
  by (induction es arbitrary: out) (auto simp: plain_clean_elem)

lemma cleaned_clean_elem:
  "cleaned_elems rooted out \<Longrightarrow> cleaned_elems rooted (clean_elem rooted out e)"
  by (auto simp: cleaned_elems_def clean_elem_def split: list.splits)

lemma cleaned_foldl_clean_elem:
  "cleaned_elems rooted out \<Longrightarrow> cleaned_elems rooted (foldl (clean_elem rooted) out es)"
  by (induction es arbitrary: out) (auto simp: cleaned_clean_elem)

lemma join_slash_plain:
  "plain_elems out \<Longrightarrow>
     \<not> repeated_slash (join_slash out) \<and>
     (out \<noteq> [] \<longrightarrow> join_slash out \<noteq> [] \<and> hd (join_slash out) \<noteq> CHR ''/'')"
proof (induction out rule: join_slash.induct)
  case 1
  then show ?case by simp
next
  case (2 x)
  then have "x \<noteq> []" "CHR ''/'' \<notin> set x" by (auto simp: plain_elems_def)
  then show ?case by (cases x) (auto simp: no_slash_not_repeated)
next
  case (3 x y ys)
  then have x: "x \<noteq> []" "CHR ''/'' \<notin> set x" and rest: "plain_elems (y # ys)"
    by (auto simp: plain_elems_def)
  from 3 rest have ih: "\<not> repeated_slash (join_slash (y # ys))"
    "join_slash (y # ys) \<noteq> []" "hd (join_slash (y # ys)) \<noteq> CHR ''/''" by auto
  have lx: "last x \<noteq> CHR ''/''" using x by (metis last_in_set)
  have "\<not> repeated_slash (CHR ''/'' # join_slash (y # ys))"
    using ih by (cases "join_slash (y # ys)") auto
  then have "\<not> repeated_slash (x @ CHR ''/'' # join_slash (y # ys))"
    using x lx by (simp add: repeated_slash_append no_slash_not_repeated)
  moreover have "hd (x @ CHR ''/'' # join_slash (y # ys)) \<noteq> CHR ''/''"
    using x by (cases x) auto
  ultimately show ?case by simp
qed

lemma split_join_slash:
  "plain_elems out \<Longrightarrow> out \<noteq> [] \<Longrightarrow> split_slash (join_slash out) = out"
proof (induction out rule: join_slash.induct)
  case 1
  then show ?case by simp
next
  case (2 x)
  then show ?case by (simp add: plain_elems_def split_slash_plain)
next
  case (3 x y ys)
  then show ?case by (simp add: plain_elems_def split_slash_append_slash)
qed

lemma plain_path_Clean_elems:
  "plain_elems (rev (foldl (clean_elem rooted) [] (split_slash p)))"
proof -
  have "plain_elems (foldl (clean_elem rooted) [] (split_slash p))"
    by (rule plain_foldl_clean_elem) (auto simp: plain_elems_def split_slash_no_slash)
  then show ?thesis by (simp add: plain_elems_def)
qed

lemma path_Clean_nonempty: "path_Clean p \<noteq> []"
  by (auto simp: path_Clean_def Let_def)

lemma path_Clean_no_repeated_slash: "\<not> repeated_slash (path_Clean p)"
proof (cases "p = []")
  case True
  then show ?thesis by (simp add: path_Clean_def)
next
  case False
  let ?rooted = "take 1 p = ''/''"
  let ?out = "rev (foldl (clean_elem ?rooted) [] (split_slash p))"
  note j = join_slash_plain [OF plain_path_Clean_elems [of ?rooted p]]
  have "\<not> repeated_slash (CHR ''/'' # join_slash ?out)"
    using j by (cases "join_slash ?out") (auto; cases ?out; auto)+
  with j False show ?thesis
    by (auto simp: path_Clean_def Let_def)
qed

lemma path_Clean_elems:
  "path_Clean p = ''.'' \<or>
   (''.'' \<notin> set (split_slash (path_Clean p)) \<and>
    (take 1 p = ''/'' \<longrightarrow> ''..'' \<notin> set (split_slash (path_Clean p))))"
proof (cases "p = []")
  case True
  then show ?thesis by (simp add: path_Clean_def)
next
  case False
  let ?rooted = "take 1 p = ''/''"
  let ?st = "foldl (clean_elem ?rooted) [] (split_slash p)"
  let ?out = "rev ?st"
  have pl: "plain_elems ?out" by (rule plain_path_Clean_elems)
  have "cleaned_elems ?rooted ?st"
    by (rule cleaned_foldl_clean_elem) (simp add: cleaned_elems_def)
  then have cl: "cleaned_elems ?rooted ?out" by (simp add: cleaned_elems_def)
  show ?thesis
  proof (cases "?out = []")
    case True
    then show ?thesis using False by (auto simp: path_Clean_def Let_def)
  next
    case ne: False
    have sj: "split_slash (join_slash ?out) = ?out" by (rule split_join_slash [OF pl ne])
    have jn: "join_slash ?out \<noteq> []" using join_slash_plain [OF pl] ne by simp
    show ?thesis
    proof (cases ?rooted)
      case True
      then have "path_Clean p = CHR ''/'' # join_slash ?out"
        using False by (simp add: path_Clean_def Let_def)
      then have "split_slash (path_Clean p) = [] # ?out" using sj by simp
      then show ?thesis using cl True by (auto simp: cleaned_elems_def)
    next
      case nr: False
      then have "path_Clean p = join_slash ?out"
        using False jn by (simp add: path_Clean_def Let_def)
      then have "split_slash (path_Clean p) = ?out" using sj by simp
      then show ?thesis using cl nr by (auto simp: cleaned_elems_def)
    qed
  qed
qed

lemma ReplaceAll_slashes_rooted:
  "take 1 (ReplaceAll_slashes p) = ''/'' \<longleftrightarrow> take 1 p = ''/''"
  by (induction p rule: ReplaceAll_slashes.induct) auto

text \<open>The expectations of the repository's test of \<open>ResolveAndCleanURL\<close>, on the path.\<close>

lemma cleanPath_examples:
  "cleanPath ''/foo//bar'' = ''/foo/bar''"
  "cleanPath ''/base/path/../foo//bar'' = ''/base/foo/bar''"
  "cleanPath ''/base/path/./../baz/./qux'' = ''/base/baz/qux''"
  "cleanPath ''/foo//bar/../baz'' = ''/foo/baz''"
  "cleanPath ''/base/path/'' = ''/base/path''"
  "cleanPath ''/base/path/foo////bar'' = ''/base/path/foo/bar''"
  by (simp_all add: cleanPath_def path_Clean_def clean_elem_def)

section \<open>URL normalization\<close>

text \<open>
  Claim C9, as the code has it. For every href that \<open>ResolveAndCleanURL\<close> accepts:
  the href parsed; the result is the parsed href itself when it is absolute and its
  resolution against the base otherwise, with the fragment emptied and the path
  replaced by \<open>cleanPath\<close> of it (scheme, host and query are kept). The result has
  no fragment, its path has no repeated separator and is not empty, and its path
  is \<open>.\<close> or has no \<open>.\<close> element and, when the path cleaned was rooted, no \<open>..\<close>
  element. The path of an absolute href does not pass through otherwise unchanged:
  cleaning also removes a trailing slash and turns the empty path into \<open>.\<close>.
\<close>

theorem ResolveAndCleanURL_normalizes:
  assumes "ResolveAndCleanURL env base href = Inr r"
  shows "\<exists>parsedHref resolved.
           url_Parse env href = Inr parsedHref \<and>
           resolved = (if IsAbs parsedHref then parsedHref
                       else url_ResolveReference env base parsedHref) \<and>
           r = resolved\<lparr>Fragment := [], Path := cleanPath (Path resolved)\<rparr> \<and>
           Fragment r = [] \<and>
           \<not> repeated_slash (Path r) \<and>
           Path r \<noteq> [] \<and>
           (Path r = ''.'' \<or>
            (''.'' \<notin> set (split_slash (Path r)) \<and>
             (take 1 (Path resolved) = ''/'' \<longrightarrow> ''..'' \<notin> set (split_slash (Path r)))))"
proof -
  from assms obtain parsedHref where p: "url_Parse env href = Inr parsedHref"
    by (auto simp: ResolveAndCleanURL_def split: sum.splits)
  define resolved where
    "resolved = (if IsAbs parsedHref then parsedHref else url_ResolveReference env base parsedHref)"
  from assms p have r: "r = resolved\<lparr>Fragment := [], Path := cleanPath (Path resolved)\<rparr>"
    by (auto simp: ResolveAndCleanURL_def resolved_def Let_def)
  have path: "Path r = path_Clean (ReplaceAll_slashes (Path resolved))"
    by (simp add: r cleanPath_def)
  have "\<not> repeated_slash (Path r)" "Path r \<noteq> []"
    by (simp_all add: path path_Clean_no_repeated_slash path_Clean_nonempty)
  moreover have "Path r = ''.'' \<or>
      (''.'' \<notin> set (split_slash (Path r)) \<and>
       (take 1 (Path resolved) = ''/'' \<longrightarrow> ''..'' \<notin> set (split_slash (Path r))))"
    using path_Clean_elems [of "ReplaceAll_slashes (Path resolved)"]
    unfolding path ReplaceAll_slashes_rooted .
  moreover have "Fragment r = []" by (simp add: r)
  ultimately show ?thesis using p r resolved_def by blast
qed

theorem ResolveAndCleanURL_normalizes_witness:
  "ResolveAndCleanURL example_env example_base ''/a//b/../c/'' =
     Inr \<lparr>Scheme = ''https'', Host = ''example.com'', Path = ''/a/c'', RawQuery = [],
          Fragment = []\<rparr> \<and>
   \<not> repeated_slash ''/a/c'' \<and> ''..'' \<notin> set (split_slash ''/a/c'')"
proof -
  let ?r = "\<lparr>Scheme = ''https'', Host = ''example.com'', Path = ''/a/c'', RawQuery = [],
             Fragment = []\<rparr>"
  have h: "ResolveAndCleanURL example_env example_base ''/a//b/../c/'' = Inr ?r"
    by (simp add: ResolveAndCleanURL_def example_env_def example_parse_def example_resolve_def
        example_base_def IsAbs_def cleanPath_def path_Clean_def clean_elem_def)
  from ResolveAndCleanURL_normalizes [OF h] show ?thesis
    using h by simp
qed

text \<open>
  The claim as the spec states it fails on an absolute href with a trailing slash:
  \<open>https://example.com/foo/\<close> has no fragment, no repeated separator and no
  dot-segment, so it should pass through as it is, and its path comes back as
  \<open>/foo\<close>.
\<close>

theorem absolute_href_path_counterexample:
  "url_Parse example_env ''https://example.com/foo/'' =
     Inr \<lparr>Scheme = ''https'', Host = ''example.com'', Path = ''/foo/'', RawQuery = [],
          Fragment = []\<rparr> \<and>
   IsAbs \<lparr>Scheme = ''https'', Host = ''example.com'', Path = ''/foo/'', RawQuery = [],
          Fragment = []\<rparr> \<and>
   \<not> repeated_slash ''/foo/'' \<and>
   ResolveAndCleanURL example_env example_base ''https://example.com/foo/'' =
     Inr \<lparr>Scheme = ''https'', Host = ''example.com'', Path = ''/foo'', RawQuery = [],
          Fragment = []\<rparr> \<and>
   ''/foo'' \<noteq> ''/foo/''"
  by (simp add: ResolveAndCleanURL_def example_env_def example_parse_def example_resolve_def
      example_base_def IsAbs_def cleanPath_def path_Clean_def clean_elem_def)

section \<open>Admission, histories and the shutdown: invariants\<close>

lemma same_rest_refl: "same_rest sc sc"
  by (simp add: same_rest_def)

lemma same_rest_trans: "same_rest a b \<Longrightarrow> same_rest b c \<Longrightarrow> same_rest a c"
  by (simp add: same_rest_def)

lemma admission_refl: "admission sc sc"
  unfolding admission_def by (rule exI [of _ "[]"]) (simp add: same_rest_refl)

lemma admissionE:
  assumes "admission a b"
  obtains n1 where
    "sent b = sent a @ n1" "CrawlQueue b = CrawlQueue a @ n1"
    "distinct (map url_String n1)"
    "\<forall>u \<in> set n1. url_String u \<notin> crawledPages a \<and> Host u = Host (BaseURL a) \<and>
           IsAllowed (RobotsChecker a) (url_String u) (UserAgent a)"
    "crawledPages a \<union> url_String ` set n1 \<subseteq> crawledPages b"
    "panicked a \<longrightarrow> b = a"
    "\<not> panicked b \<longrightarrow> crawledPages b = crawledPages a \<union> url_String ` set n1 \<and>
           crawlWg b = crawlWg a + int (length n1)"
    "panicked b \<and> \<not> panicked a \<longrightarrow> CrawlQueue_closed a"
    "same_rest a b"
proof -
  from assms obtain n1 where
    "sent b = sent a @ n1 \<and> CrawlQueue b = CrawlQueue a @ n1 \<and>
        distinct (map url_String n1) \<and>
        (\<forall>u \<in> set n1. url_String u \<notin> crawledPages a \<and> Host u = Host (BaseURL a) \<and>
           IsAllowed (RobotsChecker a) (url_String u) (UserAgent a)) \<and>
        crawledPages a \<union> url_String ` set n1 \<subseteq> crawledPages b \<and>
        (panicked a \<longrightarrow> b = a) \<and>
        (\<not> panicked b \<longrightarrow>
           crawledPages b = crawledPages a \<union> url_String ` set n1 \<and>
           crawlWg b = crawlWg a + int (length n1)) \<and>
        (panicked b \<and> \<not> panicked a \<longrightarrow> CrawlQueue_closed a) \<and>
        same_rest a b"
    unfolding admission_def ..
  then show thesis by (elim conjE) (rule that)
qed

lemma admission_trans:
  assumes "admission a b" and "admission b c"
  shows "admission a c"
proof -
  from assms(1) obtain n1 where 1:
    "sent b = sent a @ n1" "CrawlQueue b = CrawlQueue a @ n1"
    "distinct (map url_String n1)"
    "\<forall>u \<in> set n1. url_String u \<notin> crawledPages a \<and> Host u = Host (BaseURL a) \<and>
           IsAllowed (RobotsChecker a) (url_String u) (UserAgent a)"
    "crawledPages a \<union> url_String ` set n1 \<subseteq> crawledPages b"
    "panicked a \<longrightarrow> b = a"
    "\<not> panicked b \<longrightarrow> crawledPages b = crawledPages a \<union> url_String ` set n1 \<and>
           crawlWg b = crawlWg a + int (length n1)"
    "panicked b \<and> \<not> panicked a \<longrightarrow> CrawlQueue_closed a"
    "same_rest a b"
    by (rule admissionE)
  from assms(2) obtain n2 where 2:
    "sent c = sent b @ n2" "CrawlQueue c = CrawlQueue b @ n2"
    "distinct (map url_String n2)"
    "\<forall>u \<in> set n2. url_String u \<notin> crawledPages b \<and> Host u = Host (BaseURL b) \<and>
           IsAllowed (RobotsChecker b) (url_String u) (UserAgent b)"
    "crawledPages b \<union> url_String ` set n2 \<subseteq> crawledPages c"
    "panicked b \<longrightarrow> c = b"
    "\<not> panicked c \<longrightarrow> crawledPages c = crawledPages b \<union> url_String ` set n2 \<and>
           crawlWg c = crawlWg b + int (length n2)"
    "panicked c \<and> \<not> panicked b \<longrightarrow> CrawlQueue_closed b"
    "same_rest b c"
    by (rule admissionE)
  have cfg: "BaseURL b = BaseURL a" "RobotsChecker b = RobotsChecker a" "UserAgent b = UserAgent a"
    "CrawlQueue_closed b = CrawlQueue_closed a"
    using 1(9) by (simp_all add: same_rest_def)
  have d: "distinct (map url_String (n1 @ n2))"
    using 1(3) 2(3) 1(5) 2(4) by auto
  have m: "\<forall>u \<in> set (n1 @ n2). url_String u \<notin> crawledPages a \<and> Host u = Host (BaseURL a) \<and>
           IsAllowed (RobotsChecker a) (url_String u) (UserAgent a)"
    using 1(4) 2(4) 1(5) cfg by auto
  have l: "crawledPages a \<union> url_String ` set (n1 @ n2) \<subseteq> crawledPages c"
    using 1(5) 2(5) by auto
  have p: "panicked a \<longrightarrow> c = a"
  proof
    assume pa: "panicked a"
    with 1(6) have ba: "b = a" by blast
    with pa 2(6) have "c = b" by blast
    with ba show "c = a" by simp
  qed
  have pb: "panicked b \<Longrightarrow> panicked c" using 2(6) by auto
  have np: "\<not> panicked c \<longrightarrow> crawledPages c = crawledPages a \<union> url_String ` set (n1 @ n2) \<and>
           crawlWg c = crawlWg a + int (length (n1 @ n2))"
    using 1(7) 2(7) pb by auto
  have pc: "panicked c \<and> \<not> panicked a \<longrightarrow> CrawlQueue_closed a"
    using 1(8) 2(8) cfg by auto
  show ?thesis unfolding admission_def
  proof (intro exI [of _ "n1 @ n2"] conjI)
    show "sent c = sent a @ n1 @ n2" using 1(1) 2(1) by simp
    show "CrawlQueue c = CrawlQueue a @ n1 @ n2" using 1(2) 2(2) by simp
    show "distinct (map url_String (n1 @ n2))" by (rule d)
    show "\<forall>u \<in> set (n1 @ n2). url_String u \<notin> crawledPages a \<and> Host u = Host (BaseURL a) \<and>
           IsAllowed (RobotsChecker a) (url_String u) (UserAgent a)" by (rule m)
    show "crawledPages a \<union> url_String ` set (n1 @ n2) \<subseteq> crawledPages c" by (rule l)
    show "panicked a \<longrightarrow> c = a" by (rule p)
    show "\<not> panicked c \<longrightarrow> crawledPages c = crawledPages a \<union> url_String ` set (n1 @ n2) \<and>
           crawlWg c = crawlWg a + int (length (n1 @ n2))" by (rule np)
    show "panicked c \<and> \<not> panicked a \<longrightarrow> CrawlQueue_closed a" by (rule pc)
    show "same_rest a c" by (rule same_rest_trans [OF 1(9) 2(9)])
  qed
qed

lemma admission_foldl:
  assumes "\<And>s x. admission s (f s x)"
  shows "admission sc (foldl f sc xs)"
proof (induction xs arbitrary: sc)
  case Nil
  show ?case by (simp add: admission_refl)
next
  case (Cons x xs)
  show ?case using admission_trans [OF assms [of sc x] Cons [of "f sc x"]] by simp
qed

lemma admission_AddURLToCrawlQueue: "admission sc (AddURLToCrawlQueue url sc)"
proof (cases "\<not> panicked sc \<and> IsAllowed (RobotsChecker sc) (url_String url) (UserAgent sc) \<and>
    Host url = Host (BaseURL sc) \<and> url_String url \<notin> crawledPages sc")
  case False
  then have "AddURLToCrawlQueue url sc = sc"
    by (auto simp: AddURLToCrawlQueue_def)
  then show ?thesis by (simp add: admission_refl)
next
  case True
  show ?thesis
  proof (cases "CrawlQueue_closed sc")
    case closed: True
    with True have eq: "AddURLToCrawlQueue url sc =
        sc\<lparr>crawledPages := insert (url_String url) (crawledPages sc),
           crawlWg := crawlWg sc + 1, panicked := True\<rparr>"
      by (simp add: AddURLToCrawlQueue_def Let_def)
    show ?thesis unfolding admission_def eq
      using True closed by (intro exI [of _ "[]"]) (simp add: same_rest_def subset_insertI)
  next
    case op: False
    with True have eq: "AddURLToCrawlQueue url sc =
        sc\<lparr>crawledPages := insert (url_String url) (crawledPages sc),
           crawlWg := crawlWg sc + 1, CrawlQueue := CrawlQueue sc @ [url],
           sent := sent sc @ [url]\<rparr>"
      by (simp add: AddURLToCrawlQueue_def Let_def)
    show ?thesis unfolding admission_def eq
      using True op by (intro exI [of _ "[url]"]) (simp add: same_rest_def)
  qed
qed

lemma admission_admit_link: "admission sc (admit_link env sc link)"
  by (simp add: admit_link_def admission_refl admission_AddURLToCrawlQueue split: sum.splits)

lemma admission_admit_sitemap_url: "admission sc (admit_sitemap_url env sc raw)"
  by (simp add: admit_sitemap_url_def admission_refl admission_AddURLToCrawlQueue split: sum.splits)

lemma admission_CrawlFromSiteMap: "admission sc (snd (CrawlFromSiteMap env res sc))"
  by (auto simp: CrawlFromSiteMap_def admission_refl admission_foldl admission_admit_sitemap_url
      split: sum.splits)

lemma AddURLToPostProcessQueue_closed_form:
  "AddURLToPostProcessQueue pageURL pageContent sc =
     (if panicked sc \<or> postProcessors sc = [] then sc
      else if PostProcessQueue_closed sc then
        sc\<lparr>postProcessWg := postProcessWg sc + 1, panicked := True\<rparr>
      else sc\<lparr>postProcessWg := postProcessWg sc + int (length (postProcessors sc)),
              PostProcessQueue := PostProcessQueue sc @
                map (\<lambda>p. (p, pageURL, pageContent)) (postProcessors sc)\<rparr>)"
proof -
  have pan: "panicked s \<Longrightarrow> foldl (enqueue_processor pageURL pageContent) s ps = s" for s ps
    by (induction ps) (simp_all add: enqueue_processor_def)
  have op: "\<not> panicked s \<Longrightarrow> \<not> PostProcessQueue_closed s \<Longrightarrow>
      foldl (enqueue_processor pageURL pageContent) s ps =
        s\<lparr>postProcessWg := postProcessWg s + int (length ps),
          PostProcessQueue := PostProcessQueue s @ map (\<lambda>p. (p, pageURL, pageContent)) ps\<rparr>" for s ps
    by (induction ps arbitrary: s) (simp_all add: enqueue_processor_def Let_def)
  show ?thesis
  proof (cases "panicked sc \<or> postProcessors sc = []")
    case True
    then show ?thesis using pan [of sc] by (auto simp: AddURLToPostProcessQueue_def)
  next
    case False
    then obtain p ps where ps: "postProcessors sc = p # ps" by (cases "postProcessors sc") auto
    show ?thesis
    proof (cases "PostProcessQueue_closed sc")
      case True
      have "foldl (enqueue_processor pageURL pageContent) sc (p # ps) =
            foldl (enqueue_processor pageURL pageContent)
              (sc\<lparr>postProcessWg := postProcessWg sc + 1, panicked := True\<rparr>) ps"
        using False True by (simp add: enqueue_processor_def Let_def)
      also have "\<dots> = sc\<lparr>postProcessWg := postProcessWg sc + 1, panicked := True\<rparr>"
        by (rule pan) simp
      finally show ?thesis using False True ps by (simp add: AddURLToPostProcessQueue_def)
    next
      case op': False
      then show ?thesis using False op [of sc "postProcessors sc"]
        by (simp add: AddURLToPostProcessQueue_def)
    qed
  qed
qed

lemma CrawlPage_cases:
  obtains (skip) "panicked sc \<or> ctx_done sc" "CrawlPage env res u sc = sc"
  | (failed) "\<not> panicked sc" "\<not> ctx_done sc"
      "(\<exists>err. FetchPage res u = Inl err) \<or>
       (\<exists>page err. FetchPage res u = Inr page \<and> ExtractLinks env page = Inl err)"
      "CrawlPage env res u sc = sc\<lparr>fetched := fetched sc @ [u]\<rparr>"
  | (crawled) page links sc' where "\<not> panicked sc" "\<not> ctx_done sc"
      "FetchPage res u = Inr page" "ExtractLinks env page = Inr links"
      "sc' = foldl (admit_link env) (sc\<lparr>fetched := fetched sc @ [u]\<rparr>) links"
      "admission (sc\<lparr>fetched := fetched sc @ [u]\<rparr>) sc'"
      "CrawlPage env res u sc = AddURLToPostProcessQueue u page sc'"
proof (cases "panicked sc \<or> ctx_done sc")
  case True
  then show ?thesis by (intro skip) (auto simp: CrawlPage_def)
next
  case False
  then have np: "\<not> panicked sc" "\<not> ctx_done sc" by auto
  show ?thesis
  proof (cases "FetchPage res u")
    case (Inl err)
    then show ?thesis using np by (intro failed) (auto simp: CrawlPage_def Let_def)
  next
    case (Inr page)
    show ?thesis
    proof (cases "ExtractLinks env page")
      case (Inl err)
      then show ?thesis using np Inr by (intro failed) (auto simp: CrawlPage_def Let_def)
    next
      case links: (Inr links)
      show ?thesis
        using np Inr links
        by (intro crawled [of page links "foldl (admit_link env) (sc\<lparr>fetched := fetched sc @ [u]\<rparr>) links"])
           (auto simp: CrawlPage_def Let_def admission_foldl admission_admit_link)
    qed
  qed
qed

lemma grows_refl: "grows sc sc"
  by (simp add: grows_def)

lemma grows_trans:
  assumes "grows a b" and "grows b c"
  shows "grows a c"
proof -
  have p: "panicked a \<longrightarrow> panicked c" using assms by (simp add: grows_def)
  from assms have "prefix (sent a) (sent c)" "prefix (fetched a) (fetched c)"
    "crawledPages a \<subseteq> crawledPages c"
    unfolding grows_def by (meson prefix_order.trans subset_trans)+
  moreover from assms have "BaseURL c = BaseURL a" "RobotsChecker c = RobotsChecker a"
    "UserAgent c = UserAgent a" "postProcessors c = postProcessors a"
    "ctx_done a \<longrightarrow> ctx_done c \<and> fetched c = fetched a"
    by (simp_all add: grows_def)
  ultimately show ?thesis using p by (simp add: grows_def)
qed

lemma grows_admission:
  assumes "admission sc sc'"
  shows "grows sc sc'"
proof -
  from assms obtain new where 1:
    "sent sc' = sent sc @ new" "CrawlQueue sc' = CrawlQueue sc @ new"
    "distinct (map url_String new)"
    "\<forall>u \<in> set new. url_String u \<notin> crawledPages sc \<and> Host u = Host (BaseURL sc) \<and>
           IsAllowed (RobotsChecker sc) (url_String u) (UserAgent sc)"
    "crawledPages sc \<union> url_String ` set new \<subseteq> crawledPages sc'"
    "panicked sc \<longrightarrow> sc' = sc"
    "\<not> panicked sc' \<longrightarrow> crawledPages sc' = crawledPages sc \<union> url_String ` set new \<and>
           crawlWg sc' = crawlWg sc + int (length new)"
    "panicked sc' \<and> \<not> panicked sc \<longrightarrow> CrawlQueue_closed sc"
    "same_rest sc sc'"
    by (rule admissionE)
  show ?thesis unfolding grows_def
    using 1(1,5,6,9) by (auto simp: same_rest_def)
qed

lemma grows_AddURLToPostProcessQueue: "grows sc (AddURLToPostProcessQueue u c sc)"
  by (simp add: AddURLToPostProcessQueue_closed_form grows_def)

lemma grows_fetch: "\<not> ctx_done sc \<Longrightarrow> \<not> panicked sc \<Longrightarrow> grows sc (sc\<lparr>fetched := fetched sc @ [u]\<rparr>)"
  by (simp add: grows_def)

lemma grows_CrawlPage: "grows sc (CrawlPage env res u sc)"
proof (cases rule: CrawlPage_cases [of sc env res u])
  case skip
  then show ?thesis by (simp add: grows_refl)
next
  case failed
  then show ?thesis by (simp add: grows_fetch)
next
  case (crawled page links sc')
  have "grows sc (sc\<lparr>fetched := fetched sc @ [u]\<rparr>)" using crawled by (simp add: grows_fetch)
  then have "grows sc sc'" using grows_admission [OF crawled(6)] by (rule grows_trans)
  then show ?thesis using grows_AddURLToPostProcessQueue [of sc' u page] crawled(7)
    by (auto intro: grows_trans)
qed

lemma grows_field_updates:
  "\<not> panicked sc \<Longrightarrow> grows sc (sc\<lparr>crawlWg := w\<rparr>)"
  "\<not> panicked sc \<Longrightarrow> grows sc (sc\<lparr>CrawlQueue := q\<rparr>)"
  "\<not> panicked sc \<Longrightarrow> grows sc (sc\<lparr>crawl_pc := p\<rparr>)"
  "\<not> panicked sc \<Longrightarrow> grows sc (sc\<lparr>ctx_done := True\<rparr>)"
  "\<not> panicked sc \<Longrightarrow> grows sc (sc\<lparr>crawlWorkers := n\<rparr>)"
  "\<not> panicked sc \<Longrightarrow> grows sc (sc\<lparr>postProcessWorkers := n\<rparr>)"
  "\<not> panicked sc \<Longrightarrow> grows sc (sc\<lparr>panicked := True\<rparr>)"
  "\<not> panicked sc \<Longrightarrow> grows sc (sc\<lparr>CrawlQueue_closed := True, crawl_pc := p\<rparr>)"
  "\<not> panicked sc \<Longrightarrow> grows sc (sc\<lparr>PostProcessQueue_closed := True, crawl_pc := p\<rparr>)"
  "\<not> panicked sc \<Longrightarrow> grows sc (sc\<lparr>crawlWorkers := n, postProcessWorkers := m\<rparr>)"
  by (simp_all add: grows_def)

lemma grows_crawl_task:
  assumes "\<not> panicked sc"
  shows "grows sc (crawl_task env res u (sc\<lparr>CrawlQueue := rest\<rparr>))"
proof -
  let ?s0 = "sc\<lparr>CrawlQueue := rest\<rparr>"
  let ?s1 = "CrawlPage env res u ?s0"
  have a: "grows sc ?s0" using assms by (simp add: grows_field_updates)
  have b: "grows ?s0 ?s1" by (rule grows_CrawlPage)
  have c: "grows ?s1 (?s1\<lparr>crawlWg := crawlWg ?s1 - 1\<rparr>)"
    by (simp add: grows_def)
  show ?thesis unfolding crawl_task_def Let_def
    by (rule grows_trans [OF grows_trans [OF a b] c])
qed

lemma grows_post_process_task:
  assumes "\<not> panicked sc"
  shows "grows sc (post_process_task t (sc\<lparr>PostProcessQueue := rest\<rparr>))"
  using assms by (simp add: post_process_task_def Let_def grows_def)

lemma grows_Crawl_step:
  assumes "\<not> panicked sc"
  shows "grows sc (Crawl_step env res sc)"
proof (cases "crawl_pc sc")
  case AtCrawlFromSiteMap
  let ?sc = "sc\<lparr>crawlWorkers := nat (WorkerPoolSize sc), postProcessWorkers := nat (WorkerPoolSize sc)\<rparr>"
  let ?r = "CrawlFromSiteMap env res ?sc"
  have a: "grows sc ?sc" using assms by (simp add: grows_field_updates)
  have b: "grows ?sc (snd ?r)" by (rule grows_admission [OF admission_CrawlFromSiteMap])
  have c: "grows (snd ?r) ((snd ?r)\<lparr>crawl_pc := p\<rparr>)" for p
    by (simp add: grows_def)
  have "Crawl_step env res sc = (snd ?r)\<lparr>crawl_pc := (case fst ?r of Some err \<Rightarrow> Returned (Some err) | None \<Rightarrow> AtAddBaseURL)\<rparr>"
    using AtCrawlFromSiteMap
    by (auto simp: Crawl_step_def Let_def split: prod.splits option.splits)
  then show ?thesis using grows_trans [OF grows_trans [OF a b] c] by simp
next
  case AtAddBaseURL
  let ?s = "AddURLToCrawlQueue (BaseURL sc) sc"
  have b: "grows sc ?s" by (rule grows_admission [OF admission_AddURLToCrawlQueue])
  have c: "grows ?s (?s\<lparr>crawl_pc := p\<rparr>)" for p
    by (simp add: grows_def)
  show ?thesis using AtAddBaseURL grows_trans [OF b c] by (simp add: Crawl_step_def)
qed (use assms in \<open>simp_all add: Crawl_step_def grows_field_updates grows_refl\<close>)

lemma grows_step: "grows sc (step env sc e)"
proof (cases "panicked sc")
  case True
  then show ?thesis by (simp add: step_def grows_refl)
next
  case False
  then show ?thesis
    by (cases e)
      (simp_all add: step_def grows_field_updates grows_refl grows_Crawl_step
        grows_crawl_task grows_post_process_task grows_admission admission_AddURLToCrawlQueue
        split: list.splits)
qed

lemma run_Nil [simp]: "run env sc [] = sc"
  by (simp add: run_def)

lemma run_Cons [simp]: "run env sc (e # es) = run env (step env sc e) es"
  by (simp add: run_def)

lemma run_append: "run env sc (es @ es') = run env (run env sc es) es'"
  by (simp add: run_def)

lemma grows_run: "grows sc (run env sc es)"
proof (induction es arbitrary: sc)
  case Nil
  show ?case by (simp add: grows_refl)
next
  case (Cons e es)
  show ?case using grows_trans [OF grows_step Cons] by simp
qed

lemma admitted_inv_admission:
  assumes "admission sc sc'" and "admitted_inv sc"
  shows "admitted_inv sc'"
proof -
  from assms(1) obtain new where 1:
    "sent sc' = sent sc @ new" "CrawlQueue sc' = CrawlQueue sc @ new"
    "distinct (map url_String new)"
    "\<forall>u \<in> set new. url_String u \<notin> crawledPages sc \<and> Host u = Host (BaseURL sc) \<and>
           IsAllowed (RobotsChecker sc) (url_String u) (UserAgent sc)"
    "crawledPages sc \<union> url_String ` set new \<subseteq> crawledPages sc'"
    "panicked sc \<longrightarrow> sc' = sc"
    "\<not> panicked sc' \<longrightarrow> crawledPages sc' = crawledPages sc \<union> url_String ` set new \<and>
           crawlWg sc' = crawlWg sc + int (length new)"
    "panicked sc' \<and> \<not> panicked sc \<longrightarrow> CrawlQueue_closed sc"
    "same_rest sc sc'"
    by (rule admissionE)
  have b: "BaseURL sc' = BaseURL sc" "fetched sc' = fetched sc"
    using 1(9) by (simp_all add: same_rest_def)
  from assms(2) have 2: "distinct (map url_String (sent sc))"
    "url_String ` set (sent sc) \<subseteq> crawledPages sc"
    "\<not> panicked sc \<longrightarrow> crawledPages sc \<subseteq> url_String ` set (sent sc)"
    "\<forall>u \<in> set (sent sc). Host u = Host (BaseURL sc)"
    by (simp_all add: admitted_inv_def)
  from assms(2) obtain popped where 3: "sent sc = popped @ CrawlQueue sc" "subseq (fetched sc) popped"
    by (auto simp: admitted_inv_def)
  have np: "\<not> panicked sc' \<Longrightarrow> \<not> panicked sc" using 1(6) by auto
  have "distinct (map url_String (sent sc @ new))" using 1(3,4) 2(1,2) by auto
  moreover have "url_String ` set (sent sc @ new) \<subseteq> crawledPages sc'" using 1(5) 2(2) by auto
  moreover have "\<not> panicked sc' \<longrightarrow> crawledPages sc' \<subseteq> url_String ` set (sent sc @ new)"
    using 1(7) 2(3) np by auto
  moreover have "\<forall>u \<in> set (sent sc @ new). Host u = Host (BaseURL sc')" using 1(4) 2(4) b by auto
  moreover have "sent sc @ new = popped @ CrawlQueue sc'" "subseq (fetched sc') popped"
    using 1(2) 3 b by simp_all
  ultimately show ?thesis unfolding admitted_inv_def 1(1) by blast
qed

lemma admitted_inv_updates:
  "admitted_inv (sc\<lparr>crawlWg := w\<rparr>) = admitted_inv sc"
  "admitted_inv (sc\<lparr>crawl_pc := p\<rparr>) = admitted_inv sc"
  "admitted_inv (sc\<lparr>ctx_done := d\<rparr>) = admitted_inv sc"
  "admitted_inv (sc\<lparr>crawlWorkers := n\<rparr>) = admitted_inv sc"
  "admitted_inv (sc\<lparr>postProcessWorkers := n\<rparr>) = admitted_inv sc"
  "admitted_inv (sc\<lparr>CrawlQueue_closed := b\<rparr>) = admitted_inv sc"
  "admitted_inv (sc\<lparr>PostProcessQueue_closed := b\<rparr>) = admitted_inv sc"
  "admitted_inv (sc\<lparr>processed := ps\<rparr>) = admitted_inv sc"
  "admitted_inv (sc\<lparr>postProcessWg := w\<rparr>) = admitted_inv sc"
  "admitted_inv (sc\<lparr>PostProcessQueue := pq\<rparr>) = admitted_inv sc"
  by (simp_all add: admitted_inv_def)

lemma admitted_inv_panic: "admitted_inv sc \<Longrightarrow> admitted_inv (sc\<lparr>panicked := True\<rparr>)"
  by (simp add: admitted_inv_def)

lemma admitted_inv_AddURLToPostProcessQueue:
  "admitted_inv sc \<Longrightarrow> admitted_inv (AddURLToPostProcessQueue u c sc)"
  by (simp add: AddURLToPostProcessQueue_closed_form admitted_inv_updates admitted_inv_panic)

lemma admitted_inv_pop:
  assumes "admitted_inv sc" and "CrawlQueue sc = u # rest"
  shows "admitted_inv (sc\<lparr>CrawlQueue := rest\<rparr>)"
    and "admitted_inv (sc\<lparr>CrawlQueue := rest, fetched := fetched sc @ [u]\<rparr>)"
proof -
  from assms(1) obtain popped where 3: "sent sc = popped @ CrawlQueue sc" "subseq (fetched sc) popped"
    by (auto simp: admitted_inv_def)
  have a: "sent sc = (popped @ [u]) @ rest" using 3(1) assms(2) by simp
  have b: "subseq (fetched sc) (popped @ [u])" using 3(2) by (metis list_emb_append2 append_Nil2 list_emb_Nil self_append_conv subseq_order.order_refl list_emb_append_mono)
  have c: "subseq (fetched sc @ [u]) (popped @ [u])" using 3(2) by (simp add: list_emb_append_mono)
  show "admitted_inv (sc\<lparr>CrawlQueue := rest\<rparr>)"
    using assms(1) a b unfolding admitted_inv_def by (simp; blast)
  show "admitted_inv (sc\<lparr>CrawlQueue := rest, fetched := fetched sc @ [u]\<rparr>)"
    using assms(1) a c unfolding admitted_inv_def by (simp; blast)
qed

lemma admitted_inv_crawl_task:
  assumes "admitted_inv sc" and "CrawlQueue sc = u # rest"
  shows "admitted_inv (crawl_task env res u (sc\<lparr>CrawlQueue := rest\<rparr>))"
proof -
  let ?s0 = "sc\<lparr>CrawlQueue := rest\<rparr>"
  note pop = admitted_inv_pop [OF assms]
  have "admitted_inv (CrawlPage env res u ?s0)"
  proof (cases rule: CrawlPage_cases [of ?s0 env res u])
    case skip
    then show ?thesis using pop(1) by simp
  next
    case failed
    then show ?thesis using pop(2) by simp
  next
    case (crawled page links sc')
    have "admitted_inv sc'" using admitted_inv_admission [OF crawled(6)] pop(2) by simp
    then show ?thesis using crawled(7) by (simp add: admitted_inv_AddURLToPostProcessQueue)
  qed
  then show ?thesis by (simp add: crawl_task_def Let_def admitted_inv_updates)
qed

lemma admitted_inv_Crawl_step:
  assumes "admitted_inv sc"
  shows "admitted_inv (Crawl_step env res sc)"
proof (cases "crawl_pc sc")
  case AtCrawlFromSiteMap
  let ?sc = "sc\<lparr>crawlWorkers := nat (WorkerPoolSize sc), postProcessWorkers := nat (WorkerPoolSize sc)\<rparr>"
  let ?r = "CrawlFromSiteMap env res ?sc"
  have "admitted_inv ?sc" using assms by (simp add: admitted_inv_updates)
  then have b: "admitted_inv (snd ?r)"
    by (rule admitted_inv_admission [OF admission_CrawlFromSiteMap])
  have "Crawl_step env res sc = (snd ?r)\<lparr>crawl_pc := (case fst ?r of Some err \<Rightarrow> Returned (Some err) | None \<Rightarrow> AtAddBaseURL)\<rparr>"
    using AtCrawlFromSiteMap
    by (auto simp: Crawl_step_def Let_def split: prod.splits option.splits)
  then show ?thesis using b by (simp add: admitted_inv_updates)
next
  case AtAddBaseURL
  then show ?thesis
    using admitted_inv_admission [OF admission_AddURLToCrawlQueue assms]
    by (simp add: Crawl_step_def admitted_inv_updates)
qed (use assms in \<open>simp_all add: Crawl_step_def admitted_inv_updates admitted_inv_panic\<close>)

lemma admitted_inv_step:
  assumes "admitted_inv sc"
  shows "admitted_inv (step env sc e)"
proof (cases "panicked sc")
  case True
  then show ?thesis using assms by (simp add: step_def)
next
  case False
  show ?thesis
  proof (cases e)
    case (Submit url)
    then show ?thesis using False admitted_inv_admission [OF admission_AddURLToCrawlQueue assms]
      by (simp add: step_def)
  next
    case (Orchestrator res)
    then show ?thesis using False assms by (simp add: step_def admitted_inv_Crawl_step)
  next
    case (CrawlWorkerRecv res)
    then show ?thesis using False assms
      by (simp add: step_def admitted_inv_updates admitted_inv_crawl_task split: list.splits)
  next
    case PostProcessWorkerRecv
    then show ?thesis using False assms
      by (simp add: step_def admitted_inv_updates post_process_task_def Let_def split: list.splits)
  qed (use False assms in \<open>simp_all add: step_def admitted_inv_updates\<close>)
qed

lemma admitted_inv_run: "admitted_inv sc \<Longrightarrow> admitted_inv (run env sc es)"
  by (induction es arbitrary: sc) (simp_all add: admitted_inv_step)

lemma NewSiteCrawler_fresh:
  assumes "NewSiteCrawler env res baseURL t ua n procs = Inr sc"
  shows "sent sc = []" "fetched sc = []" "processed sc = []" "CrawlQueue sc = []"
    "PostProcessQueue sc = []" "crawledPages sc = {}" "crawlWg sc = 0" "postProcessWg sc = 0"
    "\<not> CrawlQueue_closed sc" "\<not> PostProcessQueue_closed sc" "\<not> ctx_done sc" "\<not> panicked sc"
    "crawl_pc sc = AtCrawlFromSiteMap" "BaseURL sc = baseURL" "UserAgent sc = ua"
    "postProcessors sc = procs" "WorkerPoolSize sc = n"
  using assms
  by (auto simp: NewSiteCrawler_def Let_def split: sum.splits)

lemma admitted_inv_fresh:
  assumes "NewSiteCrawler env res baseURL t ua n procs = Inr sc"
  shows "admitted_inv sc"
  using NewSiteCrawler_fresh [OF assms] by (simp add: admitted_inv_def)

lemma closed_at_drained:
  "crawl_queue_closed_at p \<Longrightarrow> drained p"
  "post_process_queue_closed_at p \<Longrightarrow> crawl_queue_closed_at p"
  by (cases p; simp)+

text \<open>Admissions while the crawl queue is open keep the counter equal to the queue length.\<close>

lemma crawl_inv_admission:
  assumes "admission sc sc'" and "crawl_inv sc" and "\<not> drained (crawl_pc sc)"
  shows "crawl_inv sc'"
proof -
  from assms(1) obtain new where 1:
    "sent sc' = sent sc @ new" "CrawlQueue sc' = CrawlQueue sc @ new"
    "distinct (map url_String new)"
    "\<forall>u \<in> set new. url_String u \<notin> crawledPages sc \<and> Host u = Host (BaseURL sc) \<and>
           IsAllowed (RobotsChecker sc) (url_String u) (UserAgent sc)"
    "crawledPages sc \<union> url_String ` set new \<subseteq> crawledPages sc'"
    "panicked sc \<longrightarrow> sc' = sc"
    "\<not> panicked sc' \<longrightarrow> crawledPages sc' = crawledPages sc \<union> url_String ` set new \<and>
           crawlWg sc' = crawlWg sc + int (length new)"
    "panicked sc' \<and> \<not> panicked sc \<longrightarrow> CrawlQueue_closed sc"
    "same_rest sc sc'"
    by (rule admissionE)
  have op: "\<not> CrawlQueue_closed sc" using assms(2,3) closed_at_drained(1) by (auto simp: crawl_inv_def)
  have np: "\<not> panicked sc'" using 1(8) op assms(2) by (auto simp: crawl_inv_def)
  have r: "crawl_pc sc' = crawl_pc sc" "PostProcessQueue sc' = PostProcessQueue sc"
    "postProcessWg sc' = postProcessWg sc" "CrawlQueue_closed sc' = CrawlQueue_closed sc"
    "PostProcessQueue_closed sc' = PostProcessQueue_closed sc"
    using 1(9) by (simp_all add: same_rest_def)
  show ?thesis unfolding crawl_inv_def r 1(2)
    using np 1(7) assms(2,3) by (simp add: crawl_inv_def)
qed

lemma crawl_inv_AddURLToPostProcessQueue:
  assumes "crawl_inv sc" and "\<not> drained (crawl_pc sc)"
  shows "crawl_inv (AddURLToPostProcessQueue u c sc)"
proof -
  have "\<not> PostProcessQueue_closed sc" using assms closed_at_drained by (auto simp: crawl_inv_def)
  then show ?thesis using assms
    by (auto simp: AddURLToPostProcessQueue_closed_form crawl_inv_def)
qed

lemma crawl_inv_crawl_task:
  assumes "crawl_inv sc" and "CrawlQueue sc = u # rest"
  shows "crawl_inv (crawl_task env res u (sc\<lparr>CrawlQueue := rest\<rparr>))"
proof -
  let ?s0 = "sc\<lparr>CrawlQueue := rest\<rparr>"
  have nd: "\<not> drained (crawl_pc sc)" using assms by (auto simp: crawl_inv_def)
  have wg: "crawlWg sc = int (length rest) + 1" using assms by (simp add: crawl_inv_def)
  show ?thesis
  proof (cases rule: CrawlPage_cases [of ?s0 env res u])
    case skip
    then show ?thesis using assms nd wg by (simp add: crawl_task_def Let_def crawl_inv_def)
  next
    case failed
    then show ?thesis using assms nd wg by (simp add: crawl_task_def Let_def crawl_inv_def)
  next
    case (crawled page links sc')
    let ?s1 = "?s0\<lparr>fetched := fetched ?s0 @ [u]\<rparr>"
    from crawled(6) obtain new where 1:
      "sent sc' = sent ?s1 @ new" "CrawlQueue sc' = CrawlQueue ?s1 @ new"
      "distinct (map url_String new)"
      "\<forall>u \<in> set new. url_String u \<notin> crawledPages ?s1 \<and> Host u = Host (BaseURL ?s1) \<and>
           IsAllowed (RobotsChecker ?s1) (url_String u) (UserAgent ?s1)"
      "crawledPages ?s1 \<union> url_String ` set new \<subseteq> crawledPages sc'"
      "panicked ?s1 \<longrightarrow> sc' = ?s1"
      "\<not> panicked sc' \<longrightarrow> crawledPages sc' = crawledPages ?s1 \<union> url_String ` set new \<and>
           crawlWg sc' = crawlWg ?s1 + int (length new)"
      "panicked sc' \<and> \<not> panicked ?s1 \<longrightarrow> CrawlQueue_closed ?s1"
      "same_rest ?s1 sc'"
      by (rule admissionE)
    have op: "\<not> CrawlQueue_closed sc" "\<not> PostProcessQueue_closed sc"
      using assms(1) nd closed_at_drained by (auto simp: crawl_inv_def)
    have np: "\<not> panicked sc'" using 1(8) op assms(1) by (auto simp: crawl_inv_def)
    have r: "crawl_pc sc' = crawl_pc sc" "PostProcessQueue sc' = PostProcessQueue sc"
      "postProcessWg sc' = postProcessWg sc" "CrawlQueue_closed sc' = CrawlQueue_closed sc"
      "PostProcessQueue_closed sc' = PostProcessQueue_closed sc"
      using 1(9) by (simp_all add: same_rest_def)
    have w: "crawlWg sc' = int (length rest) + 1 + int (length new)" using 1(7) np wg by simp
    have q: "CrawlQueue sc' = rest @ new" using 1(2) by simp
    show ?thesis unfolding crawl_task_def Let_def crawled(7)
      using np r w q op assms(1) nd
      by (auto simp: AddURLToPostProcessQueue_closed_form crawl_inv_def)
  qed
qed

lemma crawl_inv_Crawl_step:
  assumes "crawl_inv sc"
  shows "crawl_inv (Crawl_step env res sc)"
proof (cases "crawl_pc sc")
  case AtCrawlFromSiteMap
  let ?sc = "sc\<lparr>crawlWorkers := nat (WorkerPoolSize sc), postProcessWorkers := nat (WorkerPoolSize sc)\<rparr>"
  let ?r = "CrawlFromSiteMap env res ?sc"
  have "crawl_inv ?sc" "\<not> drained (crawl_pc ?sc)" using assms AtCrawlFromSiteMap
    by (simp_all add: crawl_inv_def)
  then have b: "crawl_inv (snd ?r)"
    by (rule crawl_inv_admission [OF admission_CrawlFromSiteMap])
  have "crawl_pc (snd ?r) = AtCrawlFromSiteMap"
    using admission_CrawlFromSiteMap [of ?sc env res] AtCrawlFromSiteMap
    by (auto elim!: admissionE simp: same_rest_def)
  moreover have "Crawl_step env res sc = (snd ?r)\<lparr>crawl_pc := (case fst ?r of Some err \<Rightarrow> Returned (Some err) | None \<Rightarrow> AtAddBaseURL)\<rparr>"
    using AtCrawlFromSiteMap
    by (auto simp: Crawl_step_def Let_def split: prod.splits option.splits)
  ultimately show ?thesis using b by (auto simp: crawl_inv_def split: option.splits)
next
  case AtAddBaseURL
  let ?s = "AddURLToCrawlQueue (BaseURL sc) sc"
  have b: "crawl_inv ?s"
    using crawl_inv_admission [OF admission_AddURLToCrawlQueue assms] AtAddBaseURL by simp
  have "crawl_pc ?s = AtAddBaseURL"
    using admission_AddURLToCrawlQueue [of sc "BaseURL sc"] AtAddBaseURL
    by (auto elim!: admissionE simp: same_rest_def)
  then show ?thesis using b AtAddBaseURL by (simp add: Crawl_step_def crawl_inv_def)
next
  case AtCrawlWgWait
  then show ?thesis using assms by (auto simp: Crawl_step_def crawl_inv_def)
next
  case AtCloseCrawlQueue
  then show ?thesis using assms by (auto simp: Crawl_step_def crawl_inv_def)
next
  case AtClosePostProcessQueue
  then show ?thesis using assms by (auto simp: Crawl_step_def crawl_inv_def)
next
  case AtPostProcessWgWait
  then show ?thesis using assms by (auto simp: Crawl_step_def crawl_inv_def)
next
  case (Returned r)
  then show ?thesis using assms by (simp add: Crawl_step_def)
qed

lemma crawl_inv_step:
  assumes "crawl_inv sc" and "\<not> outside_call e"
  shows "crawl_inv (step env sc e)"
proof (cases e)
  case Cancel
  then show ?thesis using assms by (simp add: step_def crawl_inv_def)
next
  case (Submit url)
  then show ?thesis using assms by (simp add: outside_call_def)
next
  case (Orchestrator res)
  have "\<not> panicked sc" using assms by (simp add: crawl_inv_def)
  then show ?thesis using Orchestrator crawl_inv_Crawl_step [OF assms(1)] by (simp add: step_def)
next
  case (CrawlWorkerRecv res)
  have np: "\<not> panicked sc" using assms by (simp add: crawl_inv_def)
  show ?thesis
  proof (cases "CrawlQueue sc")
    case Nil
    then show ?thesis using assms CrawlWorkerRecv by (simp add: step_def crawl_inv_def)
  next
    case (Cons u rest)
    then show ?thesis using assms(1) CrawlWorkerRecv np crawl_inv_crawl_task [OF assms(1) Cons]
      by (simp add: step_def)
  qed
next
  case CrawlWorkerDone
  then show ?thesis using assms by (simp add: step_def crawl_inv_def)
next
  case PostProcessWorkerRecv
  then show ?thesis using assms
    by (auto simp: step_def crawl_inv_def post_process_task_def Let_def split: list.splits)
next
  case PostProcessWorkerDone
  then show ?thesis using assms by (simp add: step_def crawl_inv_def)
qed

lemma crawl_inv_run:
  "crawl_inv sc \<Longrightarrow> \<forall>e \<in> set es. \<not> outside_call e \<Longrightarrow> crawl_inv (run env sc es)"
  by (induction es arbitrary: sc) (simp_all add: crawl_inv_step)

lemma crawl_inv_fresh:
  assumes "NewSiteCrawler env res baseURL t ua n procs = Inr sc"
  shows "crawl_inv sc"
  using NewSiteCrawler_fresh [OF assms] by (simp add: crawl_inv_def)

section \<open>At-most-once admission\<close>

lemma example_NewSiteCrawler:
  "NewSiteCrawler example_env (Response 404 (Inr [])) example_base 1000 ''Crawler'' 1 [0] =
     Inr example_crawler"
  by (simp add: NewSiteCrawler_def example_env_def URL_Parse_def example_parse_def FetchPage_def
      NewRobotsChecker_def LoadRobots_def example_crawler_def)

lemma distinct_count_list: "distinct xs \<Longrightarrow> count_list xs k = (if k \<in> set xs then 1 else 0)"
  by (induction xs) auto

lemma panicked_step: "panicked sc \<Longrightarrow> step env sc e = sc"
  by (simp add: step_def)

lemma AddURLToCrawlQueue_admits:
  assumes "\<not> panicked sc" "\<not> CrawlQueue_closed sc"
    "IsAllowed (RobotsChecker sc) (url_String url) (UserAgent sc)"
    "Host url = Host (BaseURL sc)" "url_String url \<notin> crawledPages sc"
  shows "AddURLToCrawlQueue url sc =
           sc\<lparr>crawledPages := insert (url_String url) (crawledPages sc),
              crawlWg := crawlWg sc + 1,
              CrawlQueue := CrawlQueue sc @ [url],
              sent := sent sc @ [url]\<rparr>"
  using assms by (simp add: AddURLToCrawlQueue_def Let_def)

lemma AddURLToCrawlQueue_known: "url_String url \<in> crawledPages sc \<Longrightarrow> AddURLToCrawlQueue url sc = sc"
  by (simp add: AddURLToCrawlQueue_def)

lemma AddURLToCrawlQueue_ledger:
  assumes "\<not> panicked sc" "IsAllowed (RobotsChecker sc) (url_String url) (UserAgent sc)"
    "Host url = Host (BaseURL sc)"
  shows "url_String url \<in> crawledPages (AddURLToCrawlQueue url sc)"
  using assms by (simp add: AddURLToCrawlQueue_def Let_def)

lemma submitted_is_sent:
  assumes inv: "admitted_inv sc" and sub: "Submit url \<in> set es"
    and ok: "IsAllowed (RobotsChecker sc) (url_String url) (UserAgent sc)" "Host url = Host (BaseURL sc)"
    and np: "\<not> panicked (run env sc es)"
  shows "url_String url \<in> url_String ` set (sent (run env sc es))"
proof -
  from sub obtain es1 es2 where es: "es = es1 @ Submit url # es2"
    by (auto simp: in_set_conv_decomp)
  let ?s1 = "run env sc es1"
  let ?s2 = "step env ?s1 (Submit url)"
  have fin: "run env sc es = run env ?s2 es2" by (simp add: es run_append)
  have g1: "grows sc ?s1" by (rule grows_run)
  have g2: "grows ?s2 (run env sc es)" unfolding fin by (rule grows_run)
  have np2: "\<not> panicked ?s2" using g2 np by (auto simp: grows_def)
  have np1: "\<not> panicked ?s1" using np2 by (auto simp: panicked_step)
  have s2: "?s2 = AddURLToCrawlQueue url ?s1" using np1 by (simp add: step_def)
  have "url_String url \<in> crawledPages ?s2" unfolding s2
    using np1 ok g1 by (intro AddURLToCrawlQueue_ledger) (simp_all add: grows_def)
  moreover have "admitted_inv ?s2" by (intro admitted_inv_step admitted_inv_run inv)
  ultimately have "url_String url \<in> url_String ` set (sent ?s2)"
    using np2 by (auto simp: admitted_inv_def)
  moreover have "set (sent ?s2) \<subseteq> set (sent (run env sc es))"
    using g2 by (auto simp: grows_def dest: set_mono_prefix)
  ultimately show ?thesis by blast
qed

text \<open>
  Claim C1. Along every run of a freshly built crawler, whatever the interleaving of
  outside calls of \<open>AddURLToCrawlQueue\<close>, sitemap seeding and link discovery, at most
  one send on the crawl queue carries a URL with a given canonical string. When the
  run holds a call for a URL that the robots check and the host check let pass, and
  no send panicked, exactly one task with its canonical string was sent, however
  many calls there were. The call that finds the string absent from the ledger stores
  it, counts the task and sends it; a call that finds it present returns with the
  crawler unchanged.
\<close>

theorem at_most_once_admission:
  assumes "NewSiteCrawler env res baseURL t ua n procs = Inr sc0"
  shows "count_list (map url_String (sent (run env sc0 es))) k \<le> 1 \<and>
    (Submit url \<in> set es \<and> IsAllowed (RobotsChecker sc0) (url_String url) ua \<and>
       Host url = Host baseURL \<and> \<not> panicked (run env sc0 es) \<longrightarrow>
     count_list (map url_String (sent (run env sc0 es))) (url_String url) = 1) \<and>
    (\<forall>sc. \<not> panicked sc \<and> \<not> CrawlQueue_closed sc \<and>
          IsAllowed (RobotsChecker sc) (url_String url) (UserAgent sc) \<and>
          Host url = Host (BaseURL sc) \<and> url_String url \<notin> crawledPages sc \<longrightarrow>
          AddURLToCrawlQueue url sc =
            sc\<lparr>crawledPages := insert (url_String url) (crawledPages sc),
               crawlWg := crawlWg sc + 1,
               CrawlQueue := CrawlQueue sc @ [url],
               sent := sent sc @ [url]\<rparr>) \<and>
    (\<forall>sc. url_String url \<in> crawledPages sc \<longrightarrow> AddURLToCrawlQueue url sc = sc)"
proof -
  have inv0: "admitted_inv sc0" by (rule admitted_inv_fresh [OF assms])
  then have inv: "admitted_inv (run env sc0 es)" by (rule admitted_inv_run)
  then have d: "distinct (map url_String (sent (run env sc0 es)))" by (simp add: admitted_inv_def)
  have a: "count_list (map url_String (sent (run env sc0 es))) k \<le> 1"
    by (simp add: distinct_count_list [OF d])
  have b: "count_list (map url_String (sent (run env sc0 es))) (url_String url) = 1"
    if "Submit url \<in> set es" "IsAllowed (RobotsChecker sc0) (url_String url) ua"
      "Host url = Host baseURL" "\<not> panicked (run env sc0 es)"
  proof -
    have "url_String url \<in> url_String ` set (sent (run env sc0 es))"
      using that NewSiteCrawler_fresh(14,15) [OF assms]
      by (intro submitted_is_sent [OF inv0]) simp_all
    then show ?thesis by (simp add: distinct_count_list [OF d])
  qed
  show ?thesis
    using a b AddURLToCrawlQueue_admits AddURLToCrawlQueue_known by blast
qed

theorem at_most_once_admission_witness:
  "count_list (map url_String (sent (run example_env example_crawler
      [Submit (example_page ''/a''), Submit (example_page ''/b''), Submit (example_page ''/a''),
       Submit (example_page ''/a'')])))
     (url_String (example_page ''/a'')) = 1"
proof -
  let ?es = "[Submit (example_page ''/a''), Submit (example_page ''/b''), Submit (example_page ''/a''),
       Submit (example_page ''/a'')]"
  have ok: "IsAllowed (RobotsChecker example_crawler) (url_String (example_page ''/a'')) ''Crawler''"
    "Host (example_page ''/a'') = Host example_base"
    by (simp_all add: example_crawler_def IsAllowed_def TestAgent_def FindGroup_def allow_all_def
        example_page_def example_base_def)
  have np: "\<not> panicked (run example_env example_crawler ?es)"
    by (simp add: step_def AddURLToCrawlQueue_def example_crawler_def IsAllowed_def TestAgent_def
        FindGroup_def allow_all_def example_page_def example_base_def url_String_def Let_def)
  show ?thesis
    using at_most_once_admission [OF example_NewSiteCrawler, where es = ?es
        and url = "example_page ''/a''"] ok np
    by simp
qed

section \<open>Host boundary\<close>

lemma panicked_run: "panicked sc \<Longrightarrow> run env sc es = sc"
  by (induction es) (simp_all add: panicked_step)

lemma subseq_subset: "subseq xs ys \<Longrightarrow> set xs \<subseteq> set ys"
  by (induction rule: list_emb.induct) auto

lemma subseq_keeps_distinct: "subseq xs ys \<Longrightarrow> distinct ys \<Longrightarrow> distinct xs"
proof (induction rule: list_emb.induct)
  case (list_emb_Cons2 x y xs ys)
  then show ?case using subseq_subset [of xs ys] by auto
qed auto

lemma queue_and_fetched_sent:
  assumes "admitted_inv sc"
  shows "set (CrawlQueue sc) \<subseteq> set (sent sc)" "set (fetched sc) \<subseteq> set (sent sc)"
proof -
  from assms obtain popped where p: "sent sc = popped @ CrawlQueue sc" "subseq (fetched sc) popped"
    by (auto simp: admitted_inv_def)
  show "set (CrawlQueue sc) \<subseteq> set (sent sc)" using p(1) by simp
  have "set (fetched sc) \<subseteq> set popped" using p(2) by (rule subseq_subset)
  then show "set (fetched sc) \<subseteq> set (sent sc)" using p(1) by auto
qed

lemma fetched_distinct:
  assumes "admitted_inv sc"
  shows "distinct (map url_String (fetched sc))"
proof -
  from assms obtain popped where p: "sent sc = popped @ CrawlQueue sc" "subseq (fetched sc) popped"
    by (auto simp: admitted_inv_def)
  have "distinct (map url_String popped)" using assms p(1) by (simp add: admitted_inv_def)
  moreover have "subseq (map url_String (fetched sc)) (map url_String popped)"
    using p(2) by (rule subseq_map)
  ultimately show ?thesis by (rule subseq_keeps_distinct[rotated])
qed

text \<open>
  Claim C8. A URL whose host is not the host of the base URL is rejected by
  \<open>AddURLToCrawlQueue\<close>, which leaves the crawler as it was. Along every run of a
  freshly built crawler such a URL is never sent on the crawl queue, never pending
  in it and never fetched by \<open>CrawlPage\<close>, whether it was submitted from outside, listed
  in the sitemap or found as a link on a crawled page.
\<close>

theorem host_boundary:
  assumes "NewSiteCrawler env res baseURL t ua n procs = Inr sc0"
    and "Host url \<noteq> Host baseURL"
  shows "url \<notin> set (sent (run env sc0 es)) \<and>
         url \<notin> set (CrawlQueue (run env sc0 es)) \<and>
         url \<notin> set (fetched (run env sc0 es)) \<and>
         AddURLToCrawlQueue url (run env sc0 es) = run env sc0 es \<and>
         step env (run env sc0 es) (Submit url) = run env sc0 es"
proof -
  let ?s = "run env sc0 es"
  have inv: "admitted_inv ?s" by (intro admitted_inv_run admitted_inv_fresh [OF assms(1)])
  have "grows sc0 ?s" by (rule grows_run)
  then have b: "BaseURL ?s = baseURL" using NewSiteCrawler_fresh(14) [OF assms(1)]
    by (simp add: grows_def)
  have s: "url \<notin> set (sent ?s)" using inv b assms(2) by (auto simp: admitted_inv_def)
  have a: "AddURLToCrawlQueue url ?s = ?s" using b assms(2) by (simp add: AddURLToCrawlQueue_def)
  have "step env ?s (Submit url) = ?s" using a by (simp add: step_def)
  then show ?thesis using s a queue_and_fetched_sent [OF inv] by auto
qed

theorem host_boundary_witness:
  "\<lparr>Scheme = ''https'', Host = ''other.org'', Path = ''/x'', RawQuery = [], Fragment = []\<rparr>
     \<notin> set (sent (run example_env example_crawler
          [Submit \<lparr>Scheme = ''https'', Host = ''other.org'', Path = ''/x'', RawQuery = [],
                   Fragment = []\<rparr>,
           Submit (example_page ''/a'')])) \<and>
   sent (run example_env example_crawler
          [Submit \<lparr>Scheme = ''https'', Host = ''other.org'', Path = ''/x'', RawQuery = [],
                   Fragment = []\<rparr>,
           Submit (example_page ''/a'')]) = [example_page ''/a'']"
proof -
  let ?u = "\<lparr>Scheme = ''https'', Host = ''other.org'', Path = ''/x'', RawQuery = [], Fragment = []\<rparr>"
  have h: "Host ?u \<noteq> Host example_base" by (simp add: example_base_def)
  have "sent (run example_env example_crawler [Submit ?u, Submit (example_page ''/a'')]) =
          [example_page ''/a'']"
    by (simp add: step_def AddURLToCrawlQueue_def example_crawler_def IsAllowed_def TestAgent_def
        FindGroup_def allow_all_def example_page_def example_base_def url_String_def Let_def)
  then show ?thesis
    using host_boundary [OF example_NewSiteCrawler h,
        where es = "[Submit ?u, Submit (example_page ''/a'')]"]
    by simp
qed

section \<open>Admission is permanent\<close>

text \<open>
  Claim C10. Along every run of a freshly built crawler: the canonical string of
  every URL sent on the crawl queue is in the ledger; the ledger never loses an
  entry, whatever happens later; once a canonical string is in the ledger, a later
  admission of any URL with that string leaves the crawler unchanged, so it sends
  nothing; no canonical string is fetched twice; and a \<open>CrawlPage\<close> that skips its
  page because the context is cancelled, or whose fetch fails, leaves the ledger as
  it is.
\<close>

theorem admission_is_permanent:
  assumes "NewSiteCrawler env res0 baseURL t ua n procs = Inr sc0"
  shows "url_String ` set (sent (run env sc0 es)) \<subseteq> crawledPages (run env sc0 es) \<and>
         crawledPages (run env sc0 es) \<subseteq> crawledPages (run env sc0 (es @ es')) \<and>
         (url_String url \<in> crawledPages (run env sc0 es) \<longrightarrow>
            AddURLToCrawlQueue url (run env sc0 (es @ es')) = run env sc0 (es @ es') \<and>
            step env (run env sc0 (es @ es')) (Submit url) = run env sc0 (es @ es')) \<and>
         count_list (map url_String (fetched (run env sc0 es))) k \<le> 1 \<and>
         (\<forall>sc. ctx_done sc \<or> (\<exists>err. FetchPage res page = Inl err) \<longrightarrow>
            crawledPages (CrawlPage env res page sc) = crawledPages sc)"
proof -
  let ?s = "run env sc0 es" and ?s' = "run env sc0 (es @ es')"
  have inv: "admitted_inv ?s" by (intro admitted_inv_run admitted_inv_fresh [OF assms(1)])
  have "grows ?s ?s'" unfolding run_append by (rule grows_run)
  then have mono: "crawledPages ?s \<subseteq> crawledPages ?s'" by (simp add: grows_def)
  have later: "AddURLToCrawlQueue url ?s' = ?s' \<and> step env ?s' (Submit url) = ?s'"
    if "url_String url \<in> crawledPages ?s"
  proof -
    have "url_String url \<in> crawledPages ?s'" using that mono by blast
    then have "AddURLToCrawlQueue url ?s' = ?s'" by (rule AddURLToCrawlQueue_known)
    then show ?thesis by (simp add: step_def)
  qed
  have once: "count_list (map url_String (fetched ?s)) k \<le> 1"
    by (simp add: distinct_count_list [OF fetched_distinct [OF inv]])
  have skip: "crawledPages (CrawlPage env res page sc) = crawledPages sc"
    if "ctx_done sc \<or> (\<exists>err. FetchPage res page = Inl err)" for sc
    using that by (auto simp: CrawlPage_def Let_def)
  show ?thesis using inv mono later once skip by (simp add: admitted_inv_def)
qed

theorem admission_is_permanent_witness:
  "crawledPages (run example_env example_crawler
      [Orchestrator (Response 404 (Inr [])), Orchestrator (Response 404 (Inr [])),
       CrawlWorkerRecv (Response 500 (Inr []))]) = {''https://example.com''} \<and>
   sent (run example_env example_crawler
      ([Orchestrator (Response 404 (Inr [])), Orchestrator (Response 404 (Inr [])),
        CrawlWorkerRecv (Response 500 (Inr []))] @ [Submit example_base])) = [example_base] \<and>
   fetched (run example_env example_crawler
      ([Orchestrator (Response 404 (Inr [])), Orchestrator (Response 404 (Inr [])),
        CrawlWorkerRecv (Response 500 (Inr []))] @ [Submit example_base])) = [example_base]"
proof -
  let ?es = "[Orchestrator (Response 404 (Inr [])), Orchestrator (Response 404 (Inr [])),
       CrawlWorkerRecv (Response 500 (Inr []))]"
  let ?s = "run example_env example_crawler ?es"
  have s: "?s = example_crawler\<lparr>crawlWorkers := 1, postProcessWorkers := 1,
      crawledPages := {''https://example.com''}, crawl_pc := AtCrawlWgWait,
      sent := [example_base], fetched := [example_base]\<rparr>"
    by (simp add: step_def Crawl_step_def CrawlFromSiteMap_def URL_Parse_def example_env_def
        example_parse_def example_resolve_def FetchPage_def AddURLToCrawlQueue_def crawl_task_def
        CrawlPage_def example_crawler_def IsAllowed_def TestAgent_def FindGroup_def allow_all_def
        example_base_def url_String_def Let_def)
  have k: "url_String example_base \<in> crawledPages ?s"
    unfolding s by (simp add: example_base_def url_String_def)
  from admission_is_permanent [OF example_NewSiteCrawler, where es = ?es and es' = "[Submit example_base]"
      and url = example_base] k
  have "step example_env (run example_env example_crawler (?es @ [Submit example_base]))
          (Submit example_base) = run example_env example_crawler (?es @ [Submit example_base])"
    by blast
  moreover have "run example_env example_crawler (?es @ [Submit example_base]) = ?s"
    unfolding run_append s
    by (simp add: step_def AddURLToCrawlQueue_def example_crawler_def example_base_def
        url_String_def IsAllowed_def TestAgent_def FindGroup_def allow_all_def)
  ultimately show ?thesis unfolding s by (simp add: example_crawler_def)
qed

section \<open>Cancellation\<close>

text \<open>
  Claim C7. \<open>CrawlPage\<close> looks at the context first and returns with the crawler
  unchanged when it is cancelled: no fetch, no admission, no dispatch. So in every
  run, from any state, the pages fetched after a cancellation are the pages fetched
  before it, whatever is submitted or scheduled afterwards. A worker whose \<open>select\<close>
  takes the branch of the cancelled context returns and takes no further task; a
  worker whose \<open>select\<close> still takes a pending task removes it from the queue and
  counts it done without fetching; with no worker left a pending task stays where
  it is.
\<close>

theorem no_fetch_after_cancellation:
  "fetched (run env sc (es @ Cancel # es')) = fetched (run env sc es) \<and>
   (ctx_done sc \<longrightarrow> CrawlPage env res url sc = sc) \<and>
   (ctx_done sc \<and> \<not> panicked sc \<and> crawlWorkers sc \<noteq> 0 \<longrightarrow>
      step env sc CrawlWorkerDone = sc\<lparr>crawlWorkers := crawlWorkers sc - 1\<rparr>) \<and>
   (ctx_done sc \<and> \<not> panicked sc \<and> crawlWorkers sc \<noteq> 0 \<and> CrawlQueue sc = url # rest \<longrightarrow>
      step env sc (CrawlWorkerRecv res) = sc\<lparr>CrawlQueue := rest, crawlWg := crawlWg sc - 1\<rparr>) \<and>
   (crawlWorkers sc = 0 \<longrightarrow> step env sc (CrawlWorkerRecv res) = sc)"
proof -
  let ?s = "run env sc es"
  have "fetched (run env (step env ?s Cancel) es') = fetched ?s"
  proof (cases "panicked ?s")
    case True
    then show ?thesis by (simp add: panicked_step panicked_run)
  next
    case False
    then have c: "step env ?s Cancel = ?s\<lparr>ctx_done := True\<rparr>" by (simp add: step_def)
    have "grows (?s\<lparr>ctx_done := True\<rparr>) (run env (?s\<lparr>ctx_done := True\<rparr>) es')" by (rule grows_run)
    then show ?thesis unfolding c by (simp add: grows_def)
  qed
  then have a: "fetched (run env sc (es @ Cancel # es')) = fetched ?s" by (simp add: run_append)
  have b: "ctx_done sc \<longrightarrow> CrawlPage env res url sc = sc" by (simp add: CrawlPage_def)
  show ?thesis using a b
    by (simp add: step_def crawl_task_def CrawlPage_def Let_def)
qed

theorem no_fetch_after_cancellation_witness:
  "fetched (run example_env example_crawler
      ([Orchestrator (Response 404 (Inr [])), Orchestrator (Response 404 (Inr []))] @
       Cancel # [Submit (example_page ''/a''), CrawlWorkerRecv (Response 200 (Inr [])),
                 CrawlWorkerRecv (Response 200 (Inr []))])) = [] \<and>
   CrawlQueue (run example_env example_crawler
      ([Orchestrator (Response 404 (Inr [])), Orchestrator (Response 404 (Inr []))] @
       Cancel # [Submit (example_page ''/a''), CrawlWorkerRecv (Response 200 (Inr [])),
                 CrawlWorkerRecv (Response 200 (Inr []))])) = []"
proof -
  let ?es = "[Orchestrator (Response 404 (Inr [])), Orchestrator (Response 404 (Inr []))]"
  let ?es' = "[Submit (example_page ''/a''), CrawlWorkerRecv (Response 200 (Inr [])),
                 CrawlWorkerRecv (Response 200 (Inr []))]"
  have f: "fetched (run example_env example_crawler ?es) = []"
    by (simp add: step_def Crawl_step_def CrawlFromSiteMap_def URL_Parse_def example_env_def
        example_parse_def example_resolve_def FetchPage_def AddURLToCrawlQueue_def
        example_crawler_def IsAllowed_def TestAgent_def FindGroup_def allow_all_def
        example_base_def url_String_def Let_def)
  have q: "CrawlQueue (run example_env example_crawler (?es @ Cancel # ?es')) = []"
    by (simp add: step_def Crawl_step_def CrawlFromSiteMap_def URL_Parse_def example_env_def
        example_parse_def example_resolve_def FetchPage_def AddURLToCrawlQueue_def crawl_task_def
        CrawlPage_def example_page_def
        example_crawler_def IsAllowed_def TestAgent_def FindGroup_def allow_all_def
        example_base_def url_String_def Let_def)
  from no_fetch_after_cancellation [where env = example_env and sc = example_crawler
      and es = ?es and es' = ?es']
  have "fetched (run example_env example_crawler (?es @ Cancel # ?es')) =
        fetched (run example_env example_crawler ?es)" by blast
  then show ?thesis using f q by simp
qed

section \<open>Shutdown ordering\<close>

text \<open>
  A run of the example crawler: the sitemap request fails, the base URL is seeded,
  a worker fetches it (status 200) and dispatches it to the one processor, then
  \<open>Crawl\<close> finds its crawl counter at zero and closes both queues while the
  post-process task is still pending.
\<close>

lemma example_shutdown_run:
  "run example_env example_crawler
     [Orchestrator (Response 404 (Inr [])), Orchestrator (Response 404 (Inr [])),
      CrawlWorkerRecv (Response 200 (Inr ''hello'')),
      Orchestrator (Response 404 (Inr [])), Orchestrator (Response 404 (Inr [])),
      Orchestrator (Response 404 (Inr []))] =
   example_crawler
     \<lparr>crawlWorkers := 1, postProcessWorkers := 1,
      crawledPages := {''https://example.com''},
      sent := [example_base], fetched := [example_base],
      postProcessWg := 1, PostProcessQueue := [(0, example_base, ''hello'')],
      CrawlQueue_closed := True, PostProcessQueue_closed := True,
      crawl_pc := AtPostProcessWgWait\<rparr>"
  by (simp add: step_def Crawl_step_def CrawlFromSiteMap_def URL_Parse_def example_env_def
      example_parse_def example_resolve_def FetchPage_def AddURLToCrawlQueue_def crawl_task_def
      CrawlPage_def ExtractLinks_def AddURLToPostProcessQueue_def enqueue_processor_def
      example_crawler_def IsAllowed_def TestAgent_def FindGroup_def allow_all_def
      example_base_def url_String_def Let_def)

text \<open>
  Claim C3, as the code has it. In a run of \<open>Crawl\<close> on a freshly built crawler, with
  no admission from outside: whenever the crawl queue is closed, the crawl counter
  is zero and the queue is empty; whenever the post-process queue is closed, the
  crawl queue is closed and the crawl counter is zero; when \<open>Crawl\<close> has returned
  \<open>nil\<close>, the post-process queue is closed, its counter is zero and it is empty; and
  nothing panicked. The post-process queue is closed right after the crawl queue,
  before \<open>Crawl\<close> waits for the post-process counter.
\<close>

theorem shutdown_ordering:
  assumes "NewSiteCrawler env res baseURL t ua n procs = Inr sc0"
    and "\<forall>e \<in> set es. \<not> outside_call e"
  shows "(CrawlQueue_closed (run env sc0 es) \<longrightarrow>
            crawlWg (run env sc0 es) = 0 \<and> CrawlQueue (run env sc0 es) = []) \<and>
         (PostProcessQueue_closed (run env sc0 es) \<longrightarrow>
            CrawlQueue_closed (run env sc0 es) \<and> crawlWg (run env sc0 es) = 0) \<and>
         (crawl_pc (run env sc0 es) = Returned None \<longrightarrow>
            PostProcessQueue_closed (run env sc0 es) \<and> postProcessWg (run env sc0 es) = 0 \<and>
            PostProcessQueue (run env sc0 es) = []) \<and>
         \<not> panicked (run env sc0 es)"
proof -
  let ?s = "run env sc0 es"
  have inv: "crawl_inv ?s" by (intro crawl_inv_run crawl_inv_fresh [OF assms(1)] assms(2))
  have c: "CrawlQueue_closed ?s \<Longrightarrow> crawlWg ?s = 0 \<and> CrawlQueue ?s = []"
    using inv closed_at_drained(1) [of "crawl_pc ?s"] by (simp add: crawl_inv_def)
  have p: "PostProcessQueue_closed ?s \<Longrightarrow> CrawlQueue_closed ?s"
    using inv closed_at_drained(2) [of "crawl_pc ?s"] by (simp add: crawl_inv_def)
  have r: "crawl_pc ?s = Returned None \<Longrightarrow>
      PostProcessQueue_closed ?s \<and> postProcessWg ?s = 0 \<and> PostProcessQueue ?s = []"
    using inv by (simp add: crawl_inv_def)
  have "\<not> panicked ?s" using inv by (simp add: crawl_inv_def)
  then show ?thesis using c p r by blast
qed

theorem shutdown_ordering_witness:
  "crawlWg (run example_env example_crawler
     [Orchestrator (Response 404 (Inr [])), Orchestrator (Response 404 (Inr [])),
      CrawlWorkerRecv (Response 200 (Inr ''hello'')),
      Orchestrator (Response 404 (Inr [])), Orchestrator (Response 404 (Inr [])),
      Orchestrator (Response 404 (Inr []))]) = 0 \<and>
   CrawlQueue_closed (run example_env example_crawler
     [Orchestrator (Response 404 (Inr [])), Orchestrator (Response 404 (Inr [])),
      CrawlWorkerRecv (Response 200 (Inr ''hello'')),
      Orchestrator (Response 404 (Inr [])), Orchestrator (Response 404 (Inr [])),
      Orchestrator (Response 404 (Inr []))])"
proof -
  let ?es = "[Orchestrator (Response 404 (Inr [])), Orchestrator (Response 404 (Inr [])),
      CrawlWorkerRecv (Response 200 (Inr ''hello'')),
      Orchestrator (Response 404 (Inr [])), Orchestrator (Response 404 (Inr [])),
      Orchestrator (Response 404 (Inr []))]"
  have h: "\<forall>e \<in> set ?es. \<not> outside_call e" by (simp add: outside_call_def)
  have c: "CrawlQueue_closed (run example_env example_crawler ?es)"
    unfolding example_shutdown_run by simp
  from shutdown_ordering [OF example_NewSiteCrawler h] c show ?thesis by blast
qed

text \<open>
  The claim as the spec states it fails for the post-process queue: in the run above
  it is closed while its own counter is 1 and its task is still pending.
\<close>

theorem post_process_queue_closed_early_counterexample:
  "PostProcessQueue_closed (run example_env example_crawler
     [Orchestrator (Response 404 (Inr [])), Orchestrator (Response 404 (Inr [])),
      CrawlWorkerRecv (Response 200 (Inr ''hello'')),
      Orchestrator (Response 404 (Inr [])), Orchestrator (Response 404 (Inr [])),
      Orchestrator (Response 404 (Inr []))]) \<and>
   postProcessWg (run example_env example_crawler
     [Orchestrator (Response 404 (Inr [])), Orchestrator (Response 404 (Inr [])),
      CrawlWorkerRecv (Response 200 (Inr ''hello'')),
      Orchestrator (Response 404 (Inr [])), Orchestrator (Response 404 (Inr [])),
      Orchestrator (Response 404 (Inr []))]) = 1 \<and>
   PostProcessQueue (run example_env example_crawler
     [Orchestrator (Response 404 (Inr [])), Orchestrator (Response 404 (Inr [])),
      CrawlWorkerRecv (Response 200 (Inr ''hello'')),
      Orchestrator (Response 404 (Inr [])), Orchestrator (Response 404 (Inr [])),
      Orchestrator (Response 404 (Inr []))]) = [(0, example_base, ''hello'')]"
  unfolding example_shutdown_run by simp

section \<open>Dispatch to the processors\<close>

lemma CrawlPage_dispatches:
  assumes "\<not> panicked sc" "\<not> ctx_done sc" "FetchPage res url = Inr page"
    "ExtractLinks env page = Inr links" "\<not> CrawlQueue_closed sc" "\<not> PostProcessQueue_closed sc"
  shows "PostProcessQueue (CrawlPage env res url sc) =
           PostProcessQueue sc @ map (\<lambda>p. (p, url, page)) (postProcessors sc)"
    and "postProcessWg (CrawlPage env res url sc) =
           postProcessWg sc + int (length (postProcessors sc))"
    and "processed (CrawlPage env res url sc) = processed sc"
proof -
  let ?s1 = "sc\<lparr>fetched := fetched sc @ [url]\<rparr>"
  let ?s2 = "foldl (admit_link env) ?s1 links"
  have cp: "CrawlPage env res url sc = AddURLToPostProcessQueue url page ?s2"
    using assms by (simp add: CrawlPage_def Let_def)
  have "admission ?s1 ?s2" by (intro admission_foldl admission_admit_link)
  then obtain new where 1:
    "panicked ?s2 \<and> \<not> panicked ?s1 \<longrightarrow> CrawlQueue_closed ?s1" "same_rest ?s1 ?s2"
    by (rule admissionE)
  have np: "\<not> panicked ?s2" using 1(1) assms by auto
  have r: "PostProcessQueue ?s2 = PostProcessQueue sc" "postProcessWg ?s2 = postProcessWg sc"
    "postProcessors ?s2 = postProcessors sc" "PostProcessQueue_closed ?s2 = PostProcessQueue_closed sc"
    "processed ?s2 = processed sc"
    using 1(2) by (simp_all add: same_rest_def)
  show "PostProcessQueue (CrawlPage env res url sc) =
           PostProcessQueue sc @ map (\<lambda>p. (p, url, page)) (postProcessors sc)"
    and "postProcessWg (CrawlPage env res url sc) =
           postProcessWg sc + int (length (postProcessors sc))"
    and "processed (CrawlPage env res url sc) = processed sc"
    unfolding cp using np r assms(6) by (simp_all add: AddURLToPostProcessQueue_closed_form)
qed

text \<open>
  Claim C4, as the code has it. A status code outside 200..299 and a transport error
  make \<open>FetchPage\<close> fail. For a page \<open>CrawlPage\<close> handles (the process alive, the
  context not cancelled): when the fetch fails, or when it succeeds and
  \<open>ExtractLinks\<close> returns an error, \<open>CrawlPage\<close> only records the fetch: no link is
  admitted and no task is dispatched. When the fetch and the link extraction succeed
  and both queues are open, exactly one post-process task per registered processor
  is appended to the post-process queue, in registration order, each with the same
  page URL and content, and the counter goes up by their number. A post-process
  worker that takes a task calls its processor once with that URL and content.
\<close>

theorem dispatch_iff_fetched_and_extracted:
  "((StatusCode < 200 \<or> 300 \<le> StatusCode) \<longrightarrow>
      FetchPage (Response StatusCode body) url = Inl (httpError StatusCode (url_String url))) \<and>
   FetchPage (DoFailed err) url = Inl err \<and>
   (\<not> panicked sc \<and> \<not> ctx_done sc \<and>
    ((\<exists>e. FetchPage res url = Inl e) \<or>
     (\<exists>page e. FetchPage res url = Inr page \<and> ExtractLinks env page = Inl e)) \<longrightarrow>
      CrawlPage env res url sc = sc\<lparr>fetched := fetched sc @ [url]\<rparr>) \<and>
   (\<not> panicked sc \<and> \<not> ctx_done sc \<and> FetchPage res url = Inr page \<and>
    ExtractLinks env page = Inr links \<and> \<not> CrawlQueue_closed sc \<and> \<not> PostProcessQueue_closed sc \<longrightarrow>
      PostProcessQueue (CrawlPage env res url sc) =
        PostProcessQueue sc @ map (\<lambda>p. (p, url, page)) (postProcessors sc) \<and>
      postProcessWg (CrawlPage env res url sc) =
        postProcessWg sc + int (length (postProcessors sc)) \<and>
      processed (CrawlPage env res url sc) = processed sc) \<and>
   (\<not> panicked sc \<and> postProcessWorkers sc \<noteq> 0 \<and> PostProcessQueue sc = task # rest \<longrightarrow>
      step env sc PostProcessWorkerRecv =
        sc\<lparr>PostProcessQueue := rest, processed := processed sc @ [task],
           postProcessWg := postProcessWg sc - 1\<rparr>)"
proof -
  have a: "(StatusCode < 200 \<or> 300 \<le> StatusCode) \<longrightarrow>
      FetchPage (Response StatusCode body) url = Inl (httpError StatusCode (url_String url))"
    "FetchPage (DoFailed err) url = Inl err"
    by (auto simp: FetchPage_def)
  have b: "CrawlPage env res url sc = sc\<lparr>fetched := fetched sc @ [url]\<rparr>"
    if "\<not> panicked sc" "\<not> ctx_done sc"
      "(\<exists>e. FetchPage res url = Inl e) \<or>
       (\<exists>page e. FetchPage res url = Inr page \<and> ExtractLinks env page = Inl e)"
    using that by (auto simp: CrawlPage_def Let_def)
  have c: "step env sc PostProcessWorkerRecv =
        sc\<lparr>PostProcessQueue := rest, processed := processed sc @ [task],
           postProcessWg := postProcessWg sc - 1\<rparr>"
    if "\<not> panicked sc" "postProcessWorkers sc \<noteq> 0" "PostProcessQueue sc = task # rest"
    using that by (simp add: step_def post_process_task_def Let_def)
  show ?thesis using a b c CrawlPage_dispatches [of sc res url page env links] by blast
qed

theorem dispatch_iff_fetched_and_extracted_witness:
  "PostProcessQueue (CrawlPage example_env (Response 200 (Inr ''link'')) (example_page ''/a'')
      (example_crawler\<lparr>postProcessors := [0, 1, 2]\<rparr>)) =
     [(0, example_page ''/a'', ''link''), (1, example_page ''/a'', ''link''),
      (2, example_page ''/a'', ''link'')] \<and>
   CrawlPage example_env (Response 404 (Inr ''gone'')) (example_page ''/a'') example_crawler =
     example_crawler\<lparr>fetched := [example_page ''/a'']\<rparr>"
proof -
  let ?sc = "example_crawler\<lparr>postProcessors := [0, 1, 2]\<rparr>"
  have h: "\<not> panicked ?sc \<and> \<not> ctx_done ?sc \<and>
      FetchPage (Response 200 (Inr ''link'')) (example_page ''/a'') = Inr ''link'' \<and>
      ExtractLinks example_env ''link'' = Inr [''/next''] \<and>
      \<not> CrawlQueue_closed ?sc \<and> \<not> PostProcessQueue_closed ?sc"
    by (simp add: example_crawler_def FetchPage_def ExtractLinks_def example_env_def)
  have g: "\<not> panicked example_crawler \<and> \<not> ctx_done example_crawler \<and>
      ((\<exists>e. FetchPage (Response 404 (Inr ''gone'')) (example_page ''/a'') = Inl e) \<or>
       (\<exists>page e. FetchPage (Response 404 (Inr ''gone'')) (example_page ''/a'') = Inr page \<and>
          ExtractLinks example_env page = Inl e))"
    by (simp add: example_crawler_def FetchPage_def)
  from dispatch_iff_fetched_and_extracted [where sc = ?sc and res = "Response 200 (Inr ''link'')"
      and url = "example_page ''/a''" and page = "''link''" and env = example_env
      and links = "[''/next'']"] h
  have 1: "PostProcessQueue (CrawlPage example_env (Response 200 (Inr ''link'')) (example_page ''/a'') ?sc) =
        PostProcessQueue ?sc @ map (\<lambda>p. (p, example_page ''/a'', ''link'')) (postProcessors ?sc)"
    by blast
  from dispatch_iff_fetched_and_extracted [where sc = example_crawler
      and res = "Response 404 (Inr ''gone'')" and url = "example_page ''/a''" and env = example_env] g
  have 2: "CrawlPage example_env (Response 404 (Inr ''gone'')) (example_page ''/a'') example_crawler =
     example_crawler\<lparr>fetched := fetched example_crawler @ [example_page ''/a'']\<rparr>"
    by blast
  show ?thesis using 1 2 by (simp add: example_crawler_def)
qed

text \<open>
  The claim as the spec states it fails when the fetch succeeds and the link
  extraction does not: the page \<open>deep\<close> is fetched with status 200, one processor is
  registered, the HTML parser returns an error, and no task is dispatched.
\<close>

theorem fetched_page_not_dispatched_counterexample:
  "FetchPage (Response 200 (Inr ''deep'')) (example_page ''/a'') = Inr ''deep'' \<and>
   postProcessors example_crawler = [0] \<and>
   PostProcessQueue (CrawlPage example_env (Response 200 (Inr ''deep'')) (example_page ''/a'')
      example_crawler) = [] \<and>
   fetched (CrawlPage example_env (Response 200 (Inr ''deep'')) (example_page ''/a'')
      example_crawler) = [example_page ''/a'']"
  by (simp add: CrawlPage_def FetchPage_def ExtractLinks_def example_env_def example_crawler_def
      Let_def)

section \<open>Construction and the robots file\<close>

lemma allow_all_allows: "IsAllowed \<lparr>robotsData = allow_all\<rparr> path agent"
  by (simp add: IsAllowed_def TestAgent_def FindGroup_def allow_all_def)

text \<open>
  Claim C5, as the code has it. \<open>NewSiteCrawler\<close> ignores the error of the robots
  fetch: a failed fetch (status outside 200..299, transport failure) hands the empty
  body to the robots parser. It fails exactly when the robots URL cannot be built or
  when the parser returns an error for that body, and it returns that error. When
  the parser accepts the body, the crawler is built with the policy parsed. When the
  fetch fails and the parser maps the empty body to the allow-all policy, the
  crawler is built and its checker allows every path for every user agent.
\<close>

theorem NewSiteCrawler_fails_on_parser_error_only:
  "(NewSiteCrawler env res baseURL t ua n procs = Inl err \<longleftrightarrow>
      URL_Parse env baseURL ''/robots.txt'' = Inl err \<or>
      (\<exists>robotsUrl. URL_Parse env baseURL ''/robots.txt'' = Inr robotsUrl \<and>
         robotstxt_FromString env
           (case FetchPage res robotsUrl of Inl e \<Rightarrow> [] | Inr body \<Rightarrow> body) = Inl err)) \<and>
   (URL_Parse env baseURL ''/robots.txt'' = Inr robotsUrl \<and>
    robotstxt_FromString env
      (case FetchPage res robotsUrl of Inl e \<Rightarrow> [] | Inr body \<Rightarrow> body) = Inr policy \<longrightarrow>
      (\<exists>sc. NewSiteCrawler env res baseURL t ua n procs = Inr sc \<and>
            robotsData (RobotsChecker sc) = policy)) \<and>
   (URL_Parse env baseURL ''/robots.txt'' = Inr robotsUrl \<and>
    FetchPage res robotsUrl = Inl e \<and> robotstxt_FromString env [] = Inr allow_all \<longrightarrow>
      (\<exists>sc. NewSiteCrawler env res baseURL t ua n procs = Inr sc \<and>
            (\<forall>path agent. IsAllowed (RobotsChecker sc) path agent)))"
proof -
  have a: "NewSiteCrawler env res baseURL t ua n procs = Inl err \<longleftrightarrow>
      URL_Parse env baseURL ''/robots.txt'' = Inl err \<or>
      (\<exists>robotsUrl. URL_Parse env baseURL ''/robots.txt'' = Inr robotsUrl \<and>
         robotstxt_FromString env
           (case FetchPage res robotsUrl of Inl e \<Rightarrow> [] | Inr body \<Rightarrow> body) = Inl err)"
    by (auto simp: NewSiteCrawler_def NewRobotsChecker_def LoadRobots_def Let_def
        split: sum.splits)
  have b: "\<exists>sc. NewSiteCrawler env res baseURL t ua n procs = Inr sc \<and>
            robotsData (RobotsChecker sc) = policy"
    if "URL_Parse env baseURL ''/robots.txt'' = Inr robotsUrl"
      "robotstxt_FromString env
        (case FetchPage res robotsUrl of Inl e \<Rightarrow> [] | Inr body \<Rightarrow> body) = Inr policy"
    using that by (simp add: NewSiteCrawler_def NewRobotsChecker_def LoadRobots_def Let_def)
  have c: "\<exists>sc. NewSiteCrawler env res baseURL t ua n procs = Inr sc \<and>
            (\<forall>path agent. IsAllowed (RobotsChecker sc) path agent)"
    if "URL_Parse env baseURL ''/robots.txt'' = Inr robotsUrl"
      "FetchPage res robotsUrl = Inl e" "robotstxt_FromString env [] = Inr allow_all"
    using that
    by (auto simp: NewSiteCrawler_def NewRobotsChecker_def LoadRobots_def Let_def
        intro: allow_all_allows)
  show ?thesis using a b c by blast
qed

theorem NewSiteCrawler_fails_on_parser_error_only_witness:
  "(\<exists>sc. NewSiteCrawler example_env (DoFailed (LibraryError ''timeout'')) example_base 1000
            ''Crawler'' 1 [0] = Inr sc \<and>
         (\<forall>path agent. IsAllowed (RobotsChecker sc) path agent))"
proof -
  have h: "URL_Parse example_env example_base ''/robots.txt'' =
      Inr \<lparr>Scheme = ''https'', Host = ''example.com'', Path = ''/robots.txt'', RawQuery = [],
           Fragment = []\<rparr> \<and>
    FetchPage (DoFailed (LibraryError ''timeout''))
      \<lparr>Scheme = ''https'', Host = ''example.com'', Path = ''/robots.txt'', RawQuery = [],
       Fragment = []\<rparr> = Inl (LibraryError ''timeout'') \<and>
    robotstxt_FromString example_env [] = Inr allow_all"
    by (simp add: URL_Parse_def example_env_def example_parse_def example_resolve_def
        example_base_def FetchPage_def)
  from NewSiteCrawler_fails_on_parser_error_only [where env = example_env
      and res = "DoFailed (LibraryError ''timeout'')" and baseURL = example_base
      and e = "LibraryError ''timeout''"] h
  show ?thesis by blast
qed

text \<open>
  The claim as the spec states it fails on a body the robots parser rejects: with a
  parser that returns an error for a \<open>Disallow\<close> line that precedes every
  \<open>User-agent\<close> line, a robots file fetched with status 200 and that body makes the
  construction fail with the parser's error.
\<close>

theorem robots_parse_error_fails_construction_counterexample:
  "NewSiteCrawler example_env (Response 200 (Inr ''Disallow: /'')) example_base 1000
     ''Crawler'' 1 [0] = Inl (LibraryError ''Disallow before User-agent'')"
  by (simp add: NewSiteCrawler_def NewRobotsChecker_def LoadRobots_def URL_Parse_def
      example_env_def example_parse_def FetchPage_def)

section \<open>The errors Crawl returns\<close>

lemma admission_crawl_pc: "admission sc sc' \<Longrightarrow> crawl_pc sc' = crawl_pc sc"
  by (erule admissionE) (simp add: same_rest_def)

lemma crawl_pc_CrawlPage: "crawl_pc (CrawlPage env res u sc) = crawl_pc sc"
proof (cases rule: CrawlPage_cases [of sc env res u])
  case (crawled page links sc')
  then show ?thesis using admission_crawl_pc [OF crawled(6)]
    by (simp add: AddURLToPostProcessQueue_closed_form)
qed simp_all

lemma CrawlFromSiteMap_error:
  "fst (CrawlFromSiteMap env res sc) =
     (case URL_Parse env (BaseURL sc) ''/sitemap.xml'' of Inl err \<Rightarrow> Some err | Inr u \<Rightarrow> None)"
  by (simp add: CrawlFromSiteMap_def split: sum.splits)

lemma Returned_error_Crawl_step:
  assumes "crawl_pc (Crawl_step env res sc) = Returned (Some err)"
  shows "crawl_pc sc = Returned (Some err) \<or>
         (crawl_pc sc = AtCrawlFromSiteMap \<and> URL_Parse env (BaseURL sc) ''/sitemap.xml'' = Inl err)"
proof (cases "crawl_pc sc")
  case AtCrawlFromSiteMap
  let ?sc = "sc\<lparr>crawlWorkers := nat (WorkerPoolSize sc), postProcessWorkers := nat (WorkerPoolSize sc)\<rparr>"
  have "fst (CrawlFromSiteMap env res ?sc) = Some err"
    using assms AtCrawlFromSiteMap
    by (auto simp: Crawl_step_def Let_def split: prod.splits option.splits)
  then show ?thesis using AtCrawlFromSiteMap
    by (auto simp: CrawlFromSiteMap_error split: sum.splits)
next
  case AtAddBaseURL
  then show ?thesis using assms by (simp add: Crawl_step_def)
next
  case AtCrawlWgWait
  then show ?thesis using assms by (simp add: Crawl_step_def split: if_splits)
next
  case AtCloseCrawlQueue
  then show ?thesis using assms by (simp add: Crawl_step_def split: if_splits)
next
  case AtClosePostProcessQueue
  then show ?thesis using assms by (simp add: Crawl_step_def split: if_splits)
next
  case AtPostProcessWgWait
  then show ?thesis using assms by (simp add: Crawl_step_def split: if_splits)
next
  case (Returned r)
  then show ?thesis using assms by (simp add: Crawl_step_def)
qed

lemma Returned_error_step:
  assumes "crawl_pc (step env sc e) = Returned (Some err)"
  shows "crawl_pc sc = Returned (Some err) \<or>
         URL_Parse env (BaseURL sc) ''/sitemap.xml'' = Inl err"
proof (cases "panicked sc")
  case True
  then show ?thesis using assms by (simp add: step_def)
next
  case False
  show ?thesis
  proof (cases e)
    case (Submit url)
    then show ?thesis using assms False admission_crawl_pc [OF admission_AddURLToCrawlQueue]
      by (simp add: step_def)
  next
    case (Orchestrator res)
    then show ?thesis using assms False Returned_error_Crawl_step [of env res sc err]
      by (auto simp: step_def)
  next
    case (CrawlWorkerRecv res)
    then show ?thesis using assms False
      by (auto simp: step_def crawl_task_def Let_def crawl_pc_CrawlPage split: if_splits list.splits)
  next
    case PostProcessWorkerRecv
    then show ?thesis using assms False
      by (auto simp: step_def post_process_task_def Let_def split: if_splits list.splits)
  qed (use assms False in \<open>auto simp: step_def split: if_splits\<close>)
qed

lemma Returned_error_run:
  assumes "crawl_pc (run env sc es) = Returned (Some err)"
  shows "crawl_pc sc = Returned (Some err) \<or>
         URL_Parse env (BaseURL sc) ''/sitemap.xml'' = Inl err"
  using assms
proof (induction es arbitrary: sc)
  case Nil
  then show ?case by simp
next
  case (Cons e es)
  have b: "BaseURL (step env sc e) = BaseURL sc" using grows_step [of sc env e] by (simp add: grows_def)
  from Cons have "crawl_pc (step env sc e) = Returned (Some err) \<or>
      URL_Parse env (BaseURL (step env sc e)) ''/sitemap.xml'' = Inl err" by simp
  then show ?case using Returned_error_step [of env sc e err] b by auto
qed

text \<open>
  Claim C6. Along every run of a freshly built crawler, \<open>Crawl\<close> has returned a
  non-nil error only if building the sitemap URL from the base URL failed, and the
  error is that failure; it returns it in its first step, exactly in that case.
  \<open>CrawlFromSiteMap\<close> returns an error exactly in that case; when the sitemap fetch
  fails or the sitemap does not parse, it returns \<open>nil\<close> and leaves the crawler as it
  was, so the crawl is seeded from the base URL alone: after its second step the
  crawler is what admitting the base URL makes of the crawler with its workers
  started. Once both counters are zero, \<open>Crawl\<close> closes both queues and returns \<open>nil\<close>.
\<close>

theorem Crawl_error_surface:
  assumes "NewSiteCrawler env res0 baseURL t ua n procs = Inr sc0"
  shows "(crawl_pc (run env sc0 es) = Returned (Some err) \<longrightarrow>
            URL_Parse env baseURL ''/sitemap.xml'' = Inl err) \<and>
         (crawl_pc (step env sc0 (Orchestrator res)) = Returned (Some err) \<longleftrightarrow>
            URL_Parse env baseURL ''/sitemap.xml'' = Inl err) \<and>
         (fst (CrawlFromSiteMap env res sc) = Some err \<longleftrightarrow>
            URL_Parse env (BaseURL sc) ''/sitemap.xml'' = Inl err) \<and>
         (URL_Parse env baseURL ''/sitemap.xml'' = Inr siteMapUrl \<and>
          ((\<exists>e. FetchPage res siteMapUrl = Inl e) \<or>
           (\<exists>siteMap e. FetchPage res siteMapUrl = Inr siteMap \<and>
              ParseSitemapForUrls env siteMap = Inl e)) \<longrightarrow>
            CrawlFromSiteMap env res sc0 = (None, sc0) \<and>
            run env sc0 [Orchestrator res, Orchestrator res'] =
              (AddURLToCrawlQueue baseURL
                 (sc0\<lparr>crawlWorkers := nat n, postProcessWorkers := nat n\<rparr>))
              \<lparr>crawl_pc := AtCrawlWgWait\<rparr>) \<and>
         (\<not> panicked sc \<and> crawl_pc sc = AtCrawlWgWait \<and> crawlWg sc = 0 \<and>
          postProcessWg sc = 0 \<and> \<not> CrawlQueue_closed sc \<and> \<not> PostProcessQueue_closed sc \<longrightarrow>
            crawl_pc (run env sc [Orchestrator res, Orchestrator res, Orchestrator res,
                                  Orchestrator res]) = Returned None)"
proof -
  note f = NewSiteCrawler_fresh [OF assms]
  have a: "URL_Parse env baseURL ''/sitemap.xml'' = Inl err"
    if "crawl_pc (run env sc0 es) = Returned (Some err)"
    using Returned_error_run [OF that] f(13,14) by simp
  have b: "crawl_pc (step env sc0 (Orchestrator res)) = Returned (Some err) \<longleftrightarrow>
            URL_Parse env baseURL ''/sitemap.xml'' = Inl err"
    using f(12,13,14)
    by (auto simp: step_def Crawl_step_def Let_def CrawlFromSiteMap_def
        split: sum.splits prod.splits option.splits)
  have c: "fst (CrawlFromSiteMap env res sc) = Some err \<longleftrightarrow>
            URL_Parse env (BaseURL sc) ''/sitemap.xml'' = Inl err"
    by (auto simp: CrawlFromSiteMap_error split: sum.splits)
  have d: "CrawlFromSiteMap env res sc0 = (None, sc0) \<and>
            run env sc0 [Orchestrator res, Orchestrator res'] =
              (AddURLToCrawlQueue baseURL
                 (sc0\<lparr>crawlWorkers := nat n, postProcessWorkers := nat n\<rparr>))
              \<lparr>crawl_pc := AtCrawlWgWait\<rparr>"
    if "URL_Parse env baseURL ''/sitemap.xml'' = Inr siteMapUrl"
      "(\<exists>e. FetchPage res siteMapUrl = Inl e) \<or>
       (\<exists>siteMap e. FetchPage res siteMapUrl = Inr siteMap \<and>
          ParseSitemapForUrls env siteMap = Inl e)"
  proof -
    let ?w = "sc0\<lparr>crawlWorkers := nat n, postProcessWorkers := nat n\<rparr>"
    have 1: "CrawlFromSiteMap env res s = (None, s)" if "BaseURL s = baseURL" for s
      using \<open>URL_Parse env baseURL ''/sitemap.xml'' = Inr siteMapUrl\<close>
        \<open>(\<exists>e. FetchPage res siteMapUrl = Inl e) \<or> _\<close> that
      by (auto simp: CrawlFromSiteMap_def)
    have 2: "step env sc0 (Orchestrator res) = ?w\<lparr>crawl_pc := AtAddBaseURL\<rparr>"
      using f(12,13,14,17) 1 [of ?w] by (simp add: step_def Crawl_step_def Let_def)
    have 3: "step env (?w\<lparr>crawl_pc := AtAddBaseURL\<rparr>) (Orchestrator res') =
        (AddURLToCrawlQueue baseURL ?w)\<lparr>crawl_pc := AtCrawlWgWait\<rparr>"
      using f(12,14) by (simp add: step_def Crawl_step_def AddURLToCrawlQueue_def Let_def)
    show ?thesis using 1 [of sc0] f(14) 2 3 by simp
  qed
  have e: "crawl_pc (run env sc [Orchestrator res, Orchestrator res, Orchestrator res,
                                  Orchestrator res]) = Returned None"
    if "\<not> panicked sc" "crawl_pc sc = AtCrawlWgWait" "crawlWg sc = 0" "postProcessWg sc = 0"
      "\<not> CrawlQueue_closed sc" "\<not> PostProcessQueue_closed sc"
    using that by (simp add: step_def Crawl_step_def)
  show ?thesis using a b c d e by blast
qed

theorem Crawl_error_surface_witness:
  "crawl_pc (run example_env example_crawler
      [Orchestrator (DoFailed (LibraryError ''refused'')), Orchestrator (Response 404 (Inr [])),
       CrawlWorkerRecv (Response 500 (Inr [])),
       Orchestrator (Response 404 (Inr [])), Orchestrator (Response 404 (Inr [])),
       Orchestrator (Response 404 (Inr [])), Orchestrator (Response 404 (Inr []))]) =
     Returned None \<and>
   CrawlQueue (run example_env example_crawler
      [Orchestrator (DoFailed (LibraryError ''refused'')), Orchestrator (Response 404 (Inr []))]) =
     [example_base]"
proof -
  let ?r = "DoFailed (LibraryError ''refused'')" and ?n = "Response 404 (Inr [])"
  let ?sm = "\<lparr>Scheme = ''https'', Host = ''example.com'', Path = ''/sitemap.xml'', RawQuery = [],
             Fragment = []\<rparr>"
  let ?w = "example_crawler\<lparr>crawlWorkers := nat 1, postProcessWorkers := nat 1\<rparr>"
  have h: "URL_Parse example_env example_base ''/sitemap.xml'' = Inr ?sm \<and>
      ((\<exists>e. FetchPage ?r ?sm = Inl e) \<or>
       (\<exists>siteMap e. FetchPage ?r ?sm = Inr siteMap \<and> ParseSitemapForUrls example_env siteMap = Inl e))"
    by (simp add: URL_Parse_def example_env_def example_parse_def example_resolve_def
        example_base_def FetchPage_def)
  from Crawl_error_surface [OF example_NewSiteCrawler, where res = ?r and res' = ?n
      and siteMapUrl = ?sm] h
  have seed: "run example_env example_crawler [Orchestrator ?r, Orchestrator ?n] =
      (AddURLToCrawlQueue example_base ?w)\<lparr>crawl_pc := AtCrawlWgWait\<rparr>"
    by blast
  have add: "AddURLToCrawlQueue example_base ?w =
      ?w\<lparr>crawledPages := {''https://example.com''}, crawlWg := 1, CrawlQueue := [example_base],
         sent := [example_base]\<rparr>"
    by (simp add: AddURLToCrawlQueue_def example_crawler_def IsAllowed_def TestAgent_def
        FindGroup_def allow_all_def example_base_def url_String_def Let_def)
  have "run example_env example_crawler
      ([Orchestrator ?r, Orchestrator ?n] @
       [CrawlWorkerRecv (Response 500 (Inr [])), Orchestrator ?n, Orchestrator ?n,
        Orchestrator ?n, Orchestrator ?n]) =
     ?w\<lparr>crawledPages := {''https://example.com''}, sent := [example_base],
        fetched := [example_base], CrawlQueue_closed := True, PostProcessQueue_closed := True,
        crawl_pc := Returned None\<rparr>"
    unfolding run_append seed add
    by (simp add: step_def Crawl_step_def crawl_task_def CrawlPage_def FetchPage_def
        example_crawler_def Let_def)
  then show ?thesis using seed add by simp
qed

section \<open>Robots exclusion\<close>

text \<open>
  Claim C2 fails on the code. The policy disallows the prefix \<open>/private\<close>, and the
  path \<open>/private/x\<close> of the Target is disallowed for the crawler's user agent; but
  \<open>AddURLToCrawlQueue\<close> hands the whole URL string, \<open>https://example.com/private/x\<close>, to
  \<open>IsAllowed\<close> as the path. No rule is a prefix of that string, the check passes, and
  the Target is recorded, counted and sent on the crawl queue.
\<close>

theorem robots_check_on_url_string_admits_disallowed_path:
  "\<not> IsAllowed \<lparr>robotsData = RobotsData [(''*'', [Rule ''/private'' False])]\<rparr>
       (Path (example_page ''/private/x'')) ''Crawler'' \<and>
   IsAllowed \<lparr>robotsData = RobotsData [(''*'', [Rule ''/private'' False])]\<rparr>
       (url_String (example_page ''/private/x'')) ''Crawler'' \<and>
   url_String (example_page ''/private/x'') = ''https://example.com/private/x'' \<and>
   AddURLToCrawlQueue (example_page ''/private/x'')
     (example_crawler
        \<lparr>RobotsChecker := \<lparr>robotsData = RobotsData [(''*'', [Rule ''/private'' False])]\<rparr>\<rparr>) =
     example_crawler
       \<lparr>RobotsChecker := \<lparr>robotsData = RobotsData [(''*'', [Rule ''/private'' False])]\<rparr>,
        crawledPages := {''https://example.com/private/x''},
        crawlWg := 1,
        CrawlQueue := [example_page ''/private/x''],
        sent := [example_page ''/private/x'']\<rparr>"
  by (simp add: AddURLToCrawlQueue_def IsAllowed_def TestAgent_def FindGroup_def rule_matches_def
      example_crawler_def example_page_def example_base_def url_String_def Let_def)

theorem robots_check_on_url_string_admits_disallowed_path_witness:
  "CrawlQueue (AddURLToCrawlQueue (example_page ''/private/x'')
     (example_crawler
        \<lparr>RobotsChecker := \<lparr>robotsData = RobotsData [(''*'', [Rule ''/private'' False])]\<rparr>\<rparr>)) =
     [example_page ''/private/x'']"
  using robots_check_on_url_string_admits_disallowed_path by simp

section \<open>Concurrent callers of AddURLToCrawlQueue\<close>

lemma caller_step_alone:
  "fst (callers_run (sc, [(url, AtRobotsCheck)]) [0, 0, 0, 0, 0]) = AddURLToCrawlQueue url sc"
  by (simp add: callers_run_def callers_step_def caller_step_def AddURLToCrawlQueue_def Let_def)

lemma callers_inv_step:
  assumes inv: "callers_inv (sc, cs)" and i: "i < length cs"
  shows "callers_inv (callers_step (sc, cs) i)"
proof -
  obtain url p where c: "cs ! i = (url, p)" by (cases "cs ! i")
  have same: "cs[i := (url, p)] = cs" using c by (metis list_update_id)
  from inv have
    d: "distinct (map url_String (sent sc))" and
    sub: "url_String ` set (sent sc) \<subseteq> crawledPages sc" and
    held: "\<And>j. j < length cs \<Longrightarrow> holds_admission (cs ! j) \<Longrightarrow>
           url_String (fst (cs ! j)) \<in> crawledPages sc \<and>
           url_String (fst (cs ! j)) \<notin> url_String ` set (sent sc)" and
    apart: "\<And>j l. j < length cs \<Longrightarrow> l < length cs \<Longrightarrow> j \<noteq> l \<Longrightarrow> holds_admission (cs ! j) \<Longrightarrow>
           holds_admission (cs ! l) \<Longrightarrow> url_String (fst (cs ! j)) \<noteq> url_String (fst (cs ! l))" and
    cov: "\<And>k. \<not> panicked sc \<Longrightarrow> k \<in> crawledPages sc \<Longrightarrow> k \<in> url_String ` set (sent sc) \<or>
              (\<exists>j < length cs. holds_admission (cs ! j) \<and> url_String (fst (cs ! j)) = k)" and
    ret: "\<And>j. j < length cs \<Longrightarrow> snd (cs ! j) = AddReturned \<Longrightarrow>
           IsAllowed (RobotsChecker sc) (url_String (fst (cs ! j))) (UserAgent sc) \<Longrightarrow>
           Host (fst (cs ! j)) = Host (BaseURL sc) \<Longrightarrow>
           url_String (fst (cs ! j)) \<in> crawledPages sc" and
    rob: "\<And>j. j < length cs \<Longrightarrow> snd (cs ! j) = AtHostCheck \<Longrightarrow>
           IsAllowed (RobotsChecker sc) (url_String (fst (cs ! j))) (UserAgent sc)" and
    elig: "\<And>j. j < length cs \<Longrightarrow> snd (cs ! j) \<in> {AtLoadOrStore, AtWgAdd, AtSend} \<Longrightarrow>
           IsAllowed (RobotsChecker sc) (url_String (fst (cs ! j))) (UserAgent sc) \<and>
           Host (fst (cs ! j)) = Host (BaseURL sc)"
    unfolding callers_inv_def by (simp_all; blast)+
  text \<open>A step that changes neither the ledger nor the sends nor who holds an admission.\<close>
  have quiet: "callers_inv (sc', cs[i := (url, p')])"
    if "sent sc' = sent sc" "crawledPages sc' = crawledPages sc" "panicked sc \<Longrightarrow> False"
      "RobotsChecker sc' = RobotsChecker sc" "UserAgent sc' = UserAgent sc" "BaseURL sc' = BaseURL sc"
      "holds_admission (url, p') = holds_admission (url, p)"
      "p' = AddReturned \<Longrightarrow> IsAllowed (RobotsChecker sc) (url_String url) (UserAgent sc) \<Longrightarrow>
         Host url = Host (BaseURL sc) \<Longrightarrow> url_String url \<in> crawledPages sc"
      "p' = AtHostCheck \<Longrightarrow> IsAllowed (RobotsChecker sc) (url_String url) (UserAgent sc)"
      "p' \<in> {AtLoadOrStore, AtWgAdd, AtSend} \<Longrightarrow>
         IsAllowed (RobotsChecker sc) (url_String url) (UserAgent sc) \<and> Host url = Host (BaseURL sc)"
    for sc' p'
  proof -
    let ?cs = "cs[i := (url, p')]"
    have n: "?cs ! j = (if j = i then (url, p') else cs ! j)" if "j < length cs" for j
      using that by (simp add: nth_list_update)
    have h: "holds_admission (?cs ! j) = holds_admission (cs ! j)" "fst (?cs ! j) = fst (cs ! j)"
      if "j < length cs" for j
      using that n [OF that] c \<open>holds_admission (url, p') = holds_admission (url, p)\<close>
      by (auto split: if_splits)
    have "\<forall>j < length ?cs. holds_admission (?cs ! j) \<longrightarrow>
           url_String (fst (?cs ! j)) \<in> crawledPages sc' \<and>
           url_String (fst (?cs ! j)) \<notin> url_String ` set (sent sc')"
      using held h that(1,2) by simp
    moreover have "\<forall>j < length ?cs. \<forall>l < length ?cs. j \<noteq> l \<and> holds_admission (?cs ! j) \<and>
           holds_admission (?cs ! l) \<longrightarrow> url_String (fst (?cs ! j)) \<noteq> url_String (fst (?cs ! l))"
      using apart h by simp
    moreover have "\<not> panicked sc' \<longrightarrow>
           (\<forall>k \<in> crawledPages sc'. k \<in> url_String ` set (sent sc') \<or>
              (\<exists>j < length ?cs. holds_admission (?cs ! j) \<and> url_String (fst (?cs ! j)) = k))"
    proof (intro impI ballI)
      fix k assume "k \<in> crawledPages sc'"
      then have "k \<in> url_String ` set (sent sc) \<or>
              (\<exists>j < length cs. holds_admission (cs ! j) \<and> url_String (fst (cs ! j)) = k)"
        using cov [of k] that(2,3) by auto
      then show "k \<in> url_String ` set (sent sc') \<or>
              (\<exists>j < length ?cs. holds_admission (?cs ! j) \<and> url_String (fst (?cs ! j)) = k)"
        using h that(1) by auto
    qed
    moreover have "\<forall>j < length ?cs. snd (?cs ! j) = AddReturned \<and>
           IsAllowed (RobotsChecker sc') (url_String (fst (?cs ! j))) (UserAgent sc') \<and>
           Host (fst (?cs ! j)) = Host (BaseURL sc') \<longrightarrow>
           url_String (fst (?cs ! j)) \<in> crawledPages sc'"
      using ret that(2,4,5,6,8) n by (auto split: if_splits)
    moreover have "\<forall>j < length ?cs. snd (?cs ! j) = AtHostCheck \<longrightarrow>
           IsAllowed (RobotsChecker sc') (url_String (fst (?cs ! j))) (UserAgent sc')"
      using rob that(4,5,9) n by (auto split: if_splits)
    moreover have "\<forall>j < length ?cs. snd (?cs ! j) \<in> {AtLoadOrStore, AtWgAdd, AtSend} \<longrightarrow>
           IsAllowed (RobotsChecker sc') (url_String (fst (?cs ! j))) (UserAgent sc') \<and>
           Host (fst (?cs ! j)) = Host (BaseURL sc')"
    proof (intro allI impI)
      fix j assume j: "j < length ?cs" "snd (?cs ! j) \<in> {AtLoadOrStore, AtWgAdd, AtSend}"
      show "IsAllowed (RobotsChecker sc') (url_String (fst (?cs ! j))) (UserAgent sc') \<and>
           Host (fst (?cs ! j)) = Host (BaseURL sc')"
      proof (cases "j = i")
        case True
        then show ?thesis using j n [of j] that(4,5,6,10) by simp
      next
        case False
        then show ?thesis using j n [of j] elig [of j] that(4,5,6) by simp
      qed
    qed
    ultimately show ?thesis
      unfolding callers_inv_def using d sub that(1,2) by simp
  qed
  show ?thesis
  proof (cases "panicked sc")
    case True
    then show ?thesis using inv i c same
      by (simp add: callers_step_def caller_step_def)
  next
    case np: False
    have el: "IsAllowed (RobotsChecker sc) (url_String url) (UserAgent sc) \<and> Host url = Host (BaseURL sc)"
      if "p \<in> {AtLoadOrStore, AtWgAdd, AtSend}"
      using elig [OF i] c that by simp
    show ?thesis
    proof (cases p)
      case AtRobotsCheck
      then show ?thesis using i c np quiet [of sc AddReturned] quiet [of sc AtHostCheck]
        by (auto simp: callers_step_def caller_step_def holds_admission_def)
    next
      case AtHostCheck
      have "IsAllowed (RobotsChecker sc) (url_String url) (UserAgent sc)"
        using rob [OF i] c AtHostCheck by simp
      then show ?thesis using AtHostCheck i c np quiet [of sc AddReturned] quiet [of sc AtLoadOrStore]
        by (auto simp: callers_step_def caller_step_def holds_admission_def)
    next
      case AtLoadOrStore
      show ?thesis
      proof (cases "url_String url \<in> crawledPages sc")
        case True
        then show ?thesis using AtLoadOrStore i c np quiet [of sc AddReturned]
          by (auto simp: callers_step_def caller_step_def holds_admission_def)
      next
        case False
        let ?sc = "sc\<lparr>crawledPages := insert (url_String url) (crawledPages sc)\<rparr>"
        let ?cs = "cs[i := (url, AtWgAdd)]"
        have st: "callers_step (sc, cs) i = (?sc, ?cs)"
          using AtLoadOrStore False i c np by (simp add: callers_step_def caller_step_def)
        have n: "?cs ! j = (if j = i then (url, AtWgAdd) else cs ! j)" if "j < length cs" for j
          using that by (simp add: nth_list_update)
        have nh: "\<not> holds_admission (cs ! i)" using c AtLoadOrStore by (simp add: holds_admission_def)
        have a3: "\<forall>j < length ?cs. holds_admission (?cs ! j) \<longrightarrow>
           url_String (fst (?cs ! j)) \<in> crawledPages ?sc \<and>
           url_String (fst (?cs ! j)) \<notin> url_String ` set (sent ?sc)"
        proof (intro allI impI)
          fix j assume j: "j < length ?cs" "holds_admission (?cs ! j)"
          show "url_String (fst (?cs ! j)) \<in> crawledPages ?sc \<and>
                url_String (fst (?cs ! j)) \<notin> url_String ` set (sent ?sc)"
          proof (cases "j = i")
            case True
            then show ?thesis using j n [of j] False sub by auto
          next
            case ne: False
            then show ?thesis using j n [of j] held [of j] by simp
          qed
        qed
        have a4: "\<forall>j < length ?cs. \<forall>l < length ?cs. j \<noteq> l \<and> holds_admission (?cs ! j) \<and>
           holds_admission (?cs ! l) \<longrightarrow> url_String (fst (?cs ! j)) \<noteq> url_String (fst (?cs ! l))"
        proof (intro allI impI)
          fix j l assume jl: "j < length ?cs" "l < length ?cs"
            "j \<noteq> l \<and> holds_admission (?cs ! j) \<and> holds_admission (?cs ! l)"
          consider "j = i" "l \<noteq> i" | "l = i" "j \<noteq> i" | "j \<noteq> i" "l \<noteq> i" using jl(3) by auto
          then show "url_String (fst (?cs ! j)) \<noteq> url_String (fst (?cs ! l))"
          proof cases
            case 1
            then show ?thesis using jl n [of j] n [of l] held [of l] False by auto
          next
            case 2
            then show ?thesis using jl n [of j] n [of l] held [of j] False by auto
          next
            case 3
            then show ?thesis using jl n [of j] n [of l] apart [of j l] by simp
          qed
        qed
        have a5: "\<not> panicked ?sc \<longrightarrow>
           (\<forall>k \<in> crawledPages ?sc. k \<in> url_String ` set (sent ?sc) \<or>
              (\<exists>j < length ?cs. holds_admission (?cs ! j) \<and> url_String (fst (?cs ! j)) = k))"
        proof (intro impI ballI)
          fix k assume k: "k \<in> crawledPages ?sc"
          show "k \<in> url_String ` set (sent ?sc) \<or>
              (\<exists>j < length ?cs. holds_admission (?cs ! j) \<and> url_String (fst (?cs ! j)) = k)"
          proof (cases "k = url_String url")
            case True
            then have "i < length ?cs \<and> holds_admission (?cs ! i) \<and> url_String (fst (?cs ! i)) = k"
              using i n [of i] by (simp add: holds_admission_def)
            then show ?thesis by blast
          next
            case ne: False
            then have "k \<in> crawledPages sc" using k by simp
            then consider "k \<in> url_String ` set (sent sc)"
              | j where "j < length cs" "holds_admission (cs ! j)" "url_String (fst (cs ! j)) = k"
              using cov [OF np] by blast
            then show ?thesis
            proof cases
              case 1
              then show ?thesis by simp
            next
              case 2
              then have "j \<noteq> i" using nh by auto
              then have "j < length ?cs \<and> holds_admission (?cs ! j) \<and> url_String (fst (?cs ! j)) = k"
                using 2 n [of j] by simp
              then show ?thesis by blast
            qed
          qed
        qed
        have a6: "\<forall>j < length ?cs. snd (?cs ! j) = AddReturned \<and>
           IsAllowed (RobotsChecker ?sc) (url_String (fst (?cs ! j))) (UserAgent ?sc) \<and>
           Host (fst (?cs ! j)) = Host (BaseURL ?sc) \<longrightarrow>
           url_String (fst (?cs ! j)) \<in> crawledPages ?sc"
          using ret n by (auto split: if_splits)
        have a7: "\<forall>j < length ?cs. snd (?cs ! j) = AtHostCheck \<longrightarrow>
           IsAllowed (RobotsChecker ?sc) (url_String (fst (?cs ! j))) (UserAgent ?sc)"
          using rob n by (auto split: if_splits)
        have a8: "\<forall>j < length ?cs. snd (?cs ! j) \<in> {AtLoadOrStore, AtWgAdd, AtSend} \<longrightarrow>
           IsAllowed (RobotsChecker ?sc) (url_String (fst (?cs ! j))) (UserAgent ?sc) \<and>
           Host (fst (?cs ! j)) = Host (BaseURL ?sc)"
        proof (intro allI impI)
          fix j assume j: "j < length ?cs" "snd (?cs ! j) \<in> {AtLoadOrStore, AtWgAdd, AtSend}"
          show "IsAllowed (RobotsChecker ?sc) (url_String (fst (?cs ! j))) (UserAgent ?sc) \<and>
                Host (fst (?cs ! j)) = Host (BaseURL ?sc)"
          proof (cases "j = i")
            case True
            then show ?thesis using j n [of j] el AtLoadOrStore by simp
          next
            case ne: False
            then show ?thesis using j n [of j] elig [of j] by simp
          qed
        qed
        have "url_String ` set (sent ?sc) \<subseteq> crawledPages ?sc" using sub by auto
        then show ?thesis unfolding st callers_inv_def
          using d a3 a4 a5 a6 a7 a8 by simp
      qed
    next
      case AtWgAdd
      then show ?thesis using i c np el quiet [of "sc\<lparr>crawlWg := crawlWg sc + 1\<rparr>" AtSend]
        by (auto simp: callers_step_def caller_step_def holds_admission_def)
    next
      case AtSend
      show ?thesis
      proof (cases "CrawlQueue_closed sc")
        case True
        have "callers_inv (sc\<lparr>panicked := True\<rparr>, cs)"
          using inv unfolding callers_inv_def by simp
        then show ?thesis using True AtSend i c np same
          by (simp add: callers_step_def caller_step_def)
      next
        case False
        let ?sc = "sc\<lparr>CrawlQueue := CrawlQueue sc @ [url], sent := sent sc @ [url]\<rparr>"
        let ?cs = "cs[i := (url, AddReturned)]"
        have st: "callers_step (sc, cs) i = (?sc, ?cs)"
          using AtSend False i c np by (simp add: callers_step_def caller_step_def)
        have n: "?cs ! j = (if j = i then (url, AddReturned) else cs ! j)" if "j < length cs" for j
          using that by (simp add: nth_list_update)
        have hi: "holds_admission (cs ! i)" using c AtSend by (simp add: holds_admission_def)
        have ki: "url_String url \<in> crawledPages sc" "url_String url \<notin> url_String ` set (sent sc)"
          using held [OF i hi] c by simp_all
        have a1: "distinct (map url_String (sent ?sc))" using d ki(2) by auto
        have a2: "url_String ` set (sent ?sc) \<subseteq> crawledPages ?sc" using sub ki(1) by auto
        have a3: "\<forall>j < length ?cs. holds_admission (?cs ! j) \<longrightarrow>
           url_String (fst (?cs ! j)) \<in> crawledPages ?sc \<and>
           url_String (fst (?cs ! j)) \<notin> url_String ` set (sent ?sc)"
        proof (intro allI impI)
          fix j assume j: "j < length ?cs" "holds_admission (?cs ! j)"
          then have ne: "j \<noteq> i" using n [of j] by (auto simp: holds_admission_def)
          then have "holds_admission (cs ! j)" "?cs ! j = cs ! j" using j n [of j] by simp_all
          moreover have "url_String (fst (cs ! j)) \<noteq> url_String url"
            using apart [of j i] j ne i hi c \<open>holds_admission (cs ! j)\<close> by simp
          ultimately show "url_String (fst (?cs ! j)) \<in> crawledPages ?sc \<and>
                url_String (fst (?cs ! j)) \<notin> url_String ` set (sent ?sc)"
            using held [of j] j by auto
        qed
        have a4: "\<forall>j < length ?cs. \<forall>l < length ?cs. j \<noteq> l \<and> holds_admission (?cs ! j) \<and>
           holds_admission (?cs ! l) \<longrightarrow> url_String (fst (?cs ! j)) \<noteq> url_String (fst (?cs ! l))"
        proof (intro allI impI)
          fix j l assume jl: "j < length ?cs" "l < length ?cs"
            "j \<noteq> l \<and> holds_admission (?cs ! j) \<and> holds_admission (?cs ! l)"
          then have "j \<noteq> i" "l \<noteq> i" using n [of j] n [of l] by (auto simp: holds_admission_def)
          then show "url_String (fst (?cs ! j)) \<noteq> url_String (fst (?cs ! l))"
            using jl n [of j] n [of l] apart [of j l] by simp
        qed
        have a5: "\<not> panicked ?sc \<longrightarrow>
           (\<forall>k \<in> crawledPages ?sc. k \<in> url_String ` set (sent ?sc) \<or>
              (\<exists>j < length ?cs. holds_admission (?cs ! j) \<and> url_String (fst (?cs ! j)) = k))"
        proof (intro impI ballI)
          fix k assume k: "k \<in> crawledPages ?sc"
          then have "k \<in> crawledPages sc" by simp
          then consider "k \<in> url_String ` set (sent sc)"
            | j where "j < length cs" "holds_admission (cs ! j)" "url_String (fst (cs ! j)) = k"
            using cov [OF np] by blast
          then show "k \<in> url_String ` set (sent ?sc) \<or>
              (\<exists>j < length ?cs. holds_admission (?cs ! j) \<and> url_String (fst (?cs ! j)) = k)"
          proof cases
            case 1
            then show ?thesis by auto
          next
            case 2
            show ?thesis
            proof (cases "j = i")
              case True
              then show ?thesis using 2 c by simp
            next
              case ne: False
              then have "j < length ?cs \<and> holds_admission (?cs ! j) \<and> url_String (fst (?cs ! j)) = k"
                using 2 n [of j] by simp
              then show ?thesis by blast
            qed
          qed
        qed
        have a6: "\<forall>j < length ?cs. snd (?cs ! j) = AddReturned \<and>
           IsAllowed (RobotsChecker ?sc) (url_String (fst (?cs ! j))) (UserAgent ?sc) \<and>
           Host (fst (?cs ! j)) = Host (BaseURL ?sc) \<longrightarrow>
           url_String (fst (?cs ! j)) \<in> crawledPages ?sc"
          using ret n ki(1) by (auto split: if_splits)
        have a7: "\<forall>j < length ?cs. snd (?cs ! j) = AtHostCheck \<longrightarrow>
           IsAllowed (RobotsChecker ?sc) (url_String (fst (?cs ! j))) (UserAgent ?sc)"
          using rob n by (auto split: if_splits)
        have a8: "\<forall>j < length ?cs. snd (?cs ! j) \<in> {AtLoadOrStore, AtWgAdd, AtSend} \<longrightarrow>
           IsAllowed (RobotsChecker ?sc) (url_String (fst (?cs ! j))) (UserAgent ?sc) \<and>
           Host (fst (?cs ! j)) = Host (BaseURL ?sc)"
        proof (intro allI impI)
          fix j assume j: "j < length ?cs" "snd (?cs ! j) \<in> {AtLoadOrStore, AtWgAdd, AtSend}"
          then have "j \<noteq> i" using n [of j] by auto
          then show "IsAllowed (RobotsChecker ?sc) (url_String (fst (?cs ! j))) (UserAgent ?sc) \<and>
                Host (fst (?cs ! j)) = Host (BaseURL ?sc)"
            using j n [of j] elig [of j] by simp
        qed
        show ?thesis unfolding st callers_inv_def
          using a1 a2 a3 a4 a5 a6 a7 a8 by simp
      qed
    next
      case AddReturned
      then show ?thesis using inv i c np same
        by (simp add: callers_step_def caller_step_def)
    qed
  qed
qed

lemma callers_inv_returned:
  assumes "callers_inv (sc, cs)" "j < length cs" "snd (cs ! j) = AddReturned"
    "IsAllowed (RobotsChecker sc) (url_String (fst (cs ! j))) (UserAgent sc)"
    "Host (fst (cs ! j)) = Host (BaseURL sc)"
  shows "url_String (fst (cs ! j)) \<in> crawledPages sc"
proof -
  from assms(1) have "\<forall>i < length cs. snd (cs ! i) = AddReturned \<and>
           IsAllowed (RobotsChecker sc) (url_String (fst (cs ! i))) (UserAgent sc) \<and>
           Host (fst (cs ! i)) = Host (BaseURL sc) \<longrightarrow>
           url_String (fst (cs ! i)) \<in> crawledPages sc"
    unfolding callers_inv_def by simp
  then show ?thesis using assms(2-5) by blast
qed

lemma callers_inv_covered:
  assumes "callers_inv (sc, cs)" "\<not> panicked sc" "k \<in> crawledPages sc"
  shows "k \<in> url_String ` set (sent sc) \<or>
         (\<exists>i < length cs. holds_admission (cs ! i) \<and> url_String (fst (cs ! i)) = k)"
proof -
  from assms(1) have "\<not> panicked sc \<longrightarrow>
           (\<forall>k \<in> crawledPages sc. k \<in> url_String ` set (sent sc) \<or>
              (\<exists>i < length cs. holds_admission (cs ! i) \<and> url_String (fst (cs ! i)) = k))"
    unfolding callers_inv_def by simp
  then show ?thesis using assms(2,3) by blast
qed

lemma callers_step_frame:
  assumes "callers_step (sc, cs) i = (sc', cs')"
  shows "map fst cs' = map fst cs \<and> RobotsChecker sc' = RobotsChecker sc \<and>
         UserAgent sc' = UserAgent sc \<and> BaseURL sc' = BaseURL sc"
proof (cases "i < length cs")
  case False
  then show ?thesis using assms by (simp add: callers_step_def)
next
  case True
  obtain url p where c: "cs ! i = (url, p)" by (cases "cs ! i")
  have m: "map fst (cs[i := (url, p')]) = map fst cs" for p'
    using c True by (simp add: map_update) (metis fst_conv list_update_id nth_map length_map)
  show ?thesis using assms True c m
    by (cases p) (auto simp: callers_step_def caller_step_def split: if_splits)
qed

lemma callers_run_frame:
  assumes "callers_run (sc, cs) schedule = (sc', cs')"
  shows "map fst cs' = map fst cs \<and> RobotsChecker sc' = RobotsChecker sc \<and>
         UserAgent sc' = UserAgent sc \<and> BaseURL sc' = BaseURL sc"
  using assms
proof (induction schedule arbitrary: sc cs)
  case Nil
  then show ?case by (simp add: callers_run_def)
next
  case (Cons i schedule)
  obtain sc1 cs1 where s: "callers_step (sc, cs) i = (sc1, cs1)" by (cases "callers_step (sc, cs) i")
  then have "callers_run (sc1, cs1) schedule = (sc', cs')" using Cons.prems by (simp add: callers_run_def)
  then show ?case using Cons.IH callers_step_frame [OF s] by metis
qed

lemma callers_inv_run:
  assumes "callers_inv st"
  shows "callers_inv (callers_run st schedule)"
  using assms
proof (induction schedule arbitrary: st)
  case Nil
  then show ?case by (simp add: callers_run_def)
next
  case (Cons i schedule)
  obtain sc cs where st: "st = (sc, cs)" by (cases st)
  have "callers_inv (callers_step st i)"
  proof (cases "i < length cs")
    case True
    then show ?thesis using Cons.prems callers_inv_step st by simp
  next
    case False
    then show ?thesis using Cons.prems st by (simp add: callers_step_def)
  qed
  then show ?case using Cons.IH by (simp add: callers_run_def)
qed

text \<open>
  Concurrent admission. Start any number of calls of \<open>AddURLToCrawlQueue\<close> on a freshly
  built crawler and let them run statement by statement under any schedule. At every
  moment at most one send carries a given canonical string. When every call has
  returned and no send panicked, each URL among the calls that the robots check and
  the host check let pass was sent exactly once, however many calls carried it. One
  call run alone through its five statements is \<open>AddURLToCrawlQueue\<close>.
\<close>

theorem concurrent_callers_admit_once:
  assumes "NewSiteCrawler env res baseURL t ua n procs = Inr sc0"
  shows "count_list (map url_String
           (sent (fst (callers_run (sc0, map (\<lambda>u. (u, AtRobotsCheck)) us) schedule)))) k \<le> 1 \<and>
    (url \<in> set us \<and> IsAllowed (RobotsChecker sc0) (url_String url) ua \<and>
     Host url = Host baseURL \<and>
     \<not> panicked (fst (callers_run (sc0, map (\<lambda>u. (u, AtRobotsCheck)) us) schedule)) \<and>
     (\<forall>c \<in> set (snd (callers_run (sc0, map (\<lambda>u. (u, AtRobotsCheck)) us) schedule)).
        snd c = AddReturned) \<longrightarrow>
     count_list (map url_String
       (sent (fst (callers_run (sc0, map (\<lambda>u. (u, AtRobotsCheck)) us) schedule))))
       (url_String url) = 1) \<and>
    fst (callers_run (sc, [(url, AtRobotsCheck)]) [0, 0, 0, 0, 0]) = AddURLToCrawlQueue url sc"
proof -
  note f = NewSiteCrawler_fresh [OF assms]
  let ?cs0 = "map (\<lambda>u. (u, AtRobotsCheck)) us"
  obtain sc' cs' where fin: "callers_run (sc0, ?cs0) schedule = (sc', cs')"
    by (cases "callers_run (sc0, ?cs0) schedule")
  have "callers_inv (sc0, ?cs0)"
    using f(1,6) by (simp add: callers_inv_def holds_admission_def)
  then have inv: "callers_inv (sc', cs')" using callers_inv_run [of "(sc0, ?cs0)" schedule] fin by simp
  have fr: "map fst cs' = us" "RobotsChecker sc' = RobotsChecker sc0" "UserAgent sc' = ua"
    "BaseURL sc' = baseURL"
    using callers_run_frame [OF fin] f(14,15) by (simp_all add: comp_def)
  have d: "distinct (map url_String (sent sc'))" using inv by (simp add: callers_inv_def)
  have a: "count_list (map url_String (sent sc')) k \<le> 1" by (simp add: distinct_count_list [OF d])
  have b: "count_list (map url_String (sent sc')) (url_String url) = 1"
    if u: "url \<in> set us" and ok: "IsAllowed (RobotsChecker sc0) (url_String url) ua"
      "Host url = Host baseURL" and np: "\<not> panicked sc'"
      and ret: "\<forall>c \<in> set cs'. snd c = AddReturned"
  proof -
    from u obtain i where i: "i < length us" "us ! i = url" by (auto simp: in_set_conv_nth)
    have len: "length cs' = length us" using fr(1) by (metis length_map)
    have fi: "fst (cs' ! i) = url" using fr(1) i len by (metis nth_map)
    have ri: "snd (cs' ! i) = AddReturned" using ret i len by simp
    have il: "i < length cs'" using i len by simp
    have "url_String (fst (cs' ! i)) \<in> crawledPages sc'"
      using ok fr fi ri by (intro callers_inv_returned [OF inv il]) simp_all
    then have k: "url_String url \<in> crawledPages sc'" using fi by simp
    have nh: "\<not> holds_admission (cs' ! j)" if "j < length cs'" for j
      using ret that by (simp add: holds_admission_def)
    have "url_String url \<in> url_String ` set (sent sc')"
      using callers_inv_covered [OF inv np k] nh by blast
    then show ?thesis by (simp add: distinct_count_list [OF d])
  qed
  show ?thesis using a b caller_step_alone [of sc url] unfolding fin by simp
qed

theorem concurrent_callers_admit_once_witness:
  "count_list (map url_String
     (sent (fst (callers_run
        (example_crawler, map (\<lambda>u. (u, AtRobotsCheck)) [example_page ''/a'', example_page ''/a''])
        [0, 1, 0, 1, 1, 0, 1, 0, 0, 1]))))
     (url_String (example_page ''/a'')) = 1"
proof -
  let ?us = "[example_page ''/a'', example_page ''/a'']"
  let ?sch = "[0, 1, 0, 1, 1, 0, 1, 0, 0, 1] :: nat list"
  have r: "callers_run (example_crawler, map (\<lambda>u. (u, AtRobotsCheck)) ?us) ?sch =
      (example_crawler\<lparr>crawledPages := {''https://example.com/a''}, crawlWg := 1,
         CrawlQueue := [example_page ''/a''], sent := [example_page ''/a'']\<rparr>,
       [(example_page ''/a'', AddReturned), (example_page ''/a'', AddReturned)])"
    by (simp add: callers_run_def callers_step_def caller_step_def example_crawler_def
        IsAllowed_def TestAgent_def FindGroup_def allow_all_def example_page_def example_base_def
        url_String_def)
  have ok: "IsAllowed (RobotsChecker example_crawler) (url_String (example_page ''/a'')) ''Crawler''"
    "Host (example_page ''/a'') = Host example_base"
    by (simp_all add: example_crawler_def IsAllowed_def TestAgent_def FindGroup_def allow_all_def
        example_page_def example_base_def)
  have h: "\<not> panicked (fst (callers_run (example_crawler, map (\<lambda>u. (u, AtRobotsCheck)) ?us) ?sch)) \<and>
      (\<forall>c \<in> set (snd (callers_run (example_crawler, map (\<lambda>u. (u, AtRobotsCheck)) ?us) ?sch)).
         snd c = AddReturned)"
    unfolding r by (simp add: example_crawler_def)
  show ?thesis
    using concurrent_callers_admit_once [OF example_NewSiteCrawler, where us = ?us
        and schedule = ?sch and url = "example_page ''/a''"] ok h
    by simp
qed

end
